theory Spec2Isabelle
  imports Main "HOL-Library.Word"
begin



section \<open>Bytes, runes and UTF-8\<close>

text \<open>
  A Go \<^verbatim>\<open>string\<close> and a \<^verbatim>\<open>[]byte\<close> are sequences of bytes; both are
  modelled as \<^typ>\<open>string\<close> (a list of 8-bit characters). A rune is a natural number.
  The functions of this section follow package \<^verbatim>\<open>unicode/utf8\<close> and
  \<^verbatim>\<open>unicode/utf16\<close> of the Go standard library, which \<^verbatim>\<open>encoding/json\<close> calls.
  Masks and shifts are written as \<open>mod\<close>, \<open>div\<close> and multiplication by powers of two.
\<close>

definition byte :: "char \<Rightarrow> nat" where
  "byte c = of_char c"

definition chr :: "nat \<Rightarrow> char" where
  "chr n = char_of n"

definition RuneError :: nat where
  "RuneError = 0xFFFD"

definition MaxRune :: nat where
  "MaxRune = 0x10FFFF"

text \<open>
  \<^verbatim>\<open>utf8.DecodeRune\<close>: the rune at the head of the bytes and its width. An empty
  input gives \<open>(RuneError, 0)\<close>, an ill-formed head \<open>(RuneError, 1)\<close>. The case
  distinction on the first byte is the table \<^verbatim>\<open>first\<close> with its accept ranges.
\<close>

definition cont :: "char \<Rightarrow> bool" where
  "cont c = (0x80 \<le> byte c \<and> byte c \<le> 0xBF)"

definition DecodeRune :: "string \<Rightarrow> nat \<times> nat" where
  "DecodeRune p =
     (case p of
        [] \<Rightarrow> (RuneError, 0)
      | p0 # t \<Rightarrow>
          if byte p0 < 0x80 then (byte p0, 1)
          else if byte p0 < 0xC2 \<or> 0xF4 < byte p0 then (RuneError, 1)
          else
            (let sz = (if byte p0 < 0xE0 then 2 else if byte p0 < 0xF0 then 3 else 4 :: nat);
                 lo = (if byte p0 = 0xE0 then 0xA0 else if byte p0 = 0xF0 then 0x90 else 0x80 :: nat);
                 hi = (if byte p0 = 0xED then 0x9F else if byte p0 = 0xF4 then 0x8F else 0xBF :: nat)
             in if length p < sz then (RuneError, 1)
                else
                  (case t of
                     [] \<Rightarrow> (RuneError, 1)
                   | b1 # t1 \<Rightarrow>
                       if byte b1 < lo \<or> hi < byte b1 then (RuneError, 1)
                       else if sz \<le> 2 then ((byte p0 mod 32) * 64 + byte b1 mod 64, 2)
                       else
                         (case t1 of
                            [] \<Rightarrow> (RuneError, 1)
                          | b2 # t2 \<Rightarrow>
                              if \<not> cont b2 then (RuneError, 1)
                              else if sz \<le> 3 then
                                ((byte p0 mod 16) * 4096 + (byte b1 mod 64) * 64 + byte b2 mod 64, 3)
                              else
                                (case t2 of
                                   [] \<Rightarrow> (RuneError, 1)
                                 | b3 # t3 \<Rightarrow>
                                     if \<not> cont b3 then (RuneError, 1)
                                     else
                                       ((byte p0 mod 8) * 262144 + (byte b1 mod 64) * 4096
                                          + (byte b2 mod 64) * 64 + byte b3 mod 64, 4))))))"

text \<open>
  \<^verbatim>\<open>utf8.EncodeRune\<close>: the UTF-8 bytes of a rune; a surrogate or a rune beyond
  \<open>MaxRune\<close> is written as \<open>RuneError\<close> (EF BF BD).
\<close>

definition IsSurrogate :: "nat \<Rightarrow> bool" where
  "IsSurrogate r = (0xD800 \<le> r \<and> r < 0xE000)"

definition EncodeRune :: "nat \<Rightarrow> string" where
  "EncodeRune r =
     (if r \<le> 0x7F then [chr r]
      else if r \<le> 0x7FF then [chr (0xC0 + r div 64), chr (0x80 + r mod 64)]
      else if MaxRune < r \<or> IsSurrogate r then [chr 0xEF, chr 0xBF, chr 0xBD]
      else if r \<le> 0xFFFF then
        [chr (0xE0 + r div 4096), chr (0x80 + (r div 64) mod 64), chr (0x80 + r mod 64)]
      else
        [chr (0xF0 + r div 262144), chr (0x80 + (r div 4096) mod 64),
         chr (0x80 + (r div 64) mod 64), chr (0x80 + r mod 64)])"

text \<open>
  \<^verbatim>\<open>utf16.DecodeRune\<close>: the code point of a surrogate pair, \<open>RuneError\<close> when the
  two halves are not a high and a low surrogate. The second half is \<open>None\<close> where the
  caller found no \<^verbatim>\<open>\uXXXX\<close> escape (Go passes -1 there).
\<close>

definition utf16_DecodeRune :: "nat \<Rightarrow> nat option \<Rightarrow> nat" where
  "utf16_DecodeRune r1 r2 =
     (case r2 of
        None \<Rightarrow> RuneError
      | Some r2' \<Rightarrow>
          if 0xD800 \<le> r1 \<and> r1 < 0xDC00 \<and> 0xDC00 \<le> r2' \<and> r2' < 0xE000
          then (r1 - 0xD800) * 1024 + (r2' - 0xDC00) + 0x10000
          else RuneError)"

text \<open>
  \<^verbatim>\<open>utf8.ValidString\<close>: no position decodes to \<open>(RuneError, 1)\<close>.
  \<open>ToValidUTF8\<close> replaces every ill-formed byte by the bytes EF BF BD of
  \<open>RuneError\<close> and keeps every well-formed sequence, which is what the JSON encoder
  does to a string ("coerced to valid UTF-8", in the words of its documentation).
\<close>

function ValidString :: "string \<Rightarrow> bool" where
  "ValidString [] = True"
| "ValidString (c # cs) =
     (if DecodeRune (c # cs) = (RuneError, 1) then False
      else ValidString (drop (snd (DecodeRune (c # cs)) - 1) cs))"
  by pat_completeness auto
termination
  by (relation "measure length") auto

function ToValidUTF8 :: "string \<Rightarrow> string" where
  "ToValidUTF8 [] = []"
| "ToValidUTF8 (c # cs) =
     (if DecodeRune (c # cs) = (RuneError, 1) then EncodeRune RuneError @ ToValidUTF8 cs
      else take (snd (DecodeRune (c # cs))) (c # cs)
             @ ToValidUTF8 (drop (snd (DecodeRune (c # cs)) - 1) cs))"
  by pat_completeness auto
termination
  by (relation "measure length") auto

section \<open>The ledger's records and their JSON form\<close>

text \<open>
  \<^verbatim>\<open>type FileData struct\<close> with \<^verbatim>\<open>Path string\<close> (JSON key \<^verbatim>\<open>path\<close>) and
  \<^verbatim>\<open>Size int64\<close> (JSON key \<^verbatim>\<open>size\<close>).
\<close>

record FileData =
  Path :: string
  Size :: "64 word"

definition dq :: char where
  "dq = CHR 0x22"

definition bs :: char where
  "bs = CHR 0x5C"

definition LF :: char where
  "LF = CHR 0x0A"

definition CR :: char where
  "CR = CHR 0x0D"

definition TAB :: char where
  "TAB = CHR 0x09"

subsection \<open>Encoding: \<^verbatim>\<open>json.MarshalIndent(fileDataList, "", "  ")\<close>\<close>

text \<open>
  \<open>hex\<close> is the table \<^verbatim>\<open>"0123456789abcdef"\<close>, always read below 16.
  \<open>FormatInt\<close> is \<^verbatim>\<open>strconv.FormatInt(i, 10)\<close>.
\<close>

definition hex :: "nat \<Rightarrow> char" where
  "hex n = ''0123456789abcdef'' ! (n mod 16)"

definition digit :: "nat \<Rightarrow> char" where
  "digit n = chr (48 + n)"

function dec_nat :: "nat \<Rightarrow> string" where
  "dec_nat n = (if n < 10 then [digit n] else dec_nat (n div 10) @ [digit (n mod 10)])"
  by pat_completeness auto
termination
  by (relation "measure id") auto

definition FormatInt :: "int \<Rightarrow> string" where
  "FormatInt i = (if i < 0 then CHR ''-'' # dec_nat (nat (- i)) else dec_nat (nat i))"

text \<open>
  The encoder's string writer (\<^verbatim>\<open>encodeState.string\<close> with \<^verbatim>\<open>escapeHTML\<close> set, the
  default of \<^verbatim>\<open>Marshal\<close>), without the surrounding quotes. \<open>htmlSafe\<close> is the table
  \<^verbatim>\<open>htmlSafeSet\<close>: the ASCII bytes from space on, but the quote, the backslash and
  \<^verbatim>\<open><\<close>, \<^verbatim>\<open>>\<close>, \<^verbatim>\<open>&\<close>. An ill-formed byte is written as the escape of U+FFFD; U+2028
  and U+2029 are escaped; every other well-formed sequence is copied.
\<close>

definition htmlSafe :: "char \<Rightarrow> bool" where
  "htmlSafe b = (0x20 \<le> byte b \<and> byte b < 0x80 \<and> b \<noteq> dq \<and> b \<noteq> bs
                 \<and> b \<noteq> CHR ''<'' \<and> b \<noteq> CHR ''>'' \<and> b \<noteq> CHR ''&'')"

function encode_string :: "string \<Rightarrow> string" where
  "encode_string [] = []"
| "encode_string (b # src) =
     (if byte b < 0x80 then
        (if htmlSafe b then b # encode_string src
         else if b = bs \<or> b = dq then bs # b # encode_string src
         else if b = LF then bs # CHR ''n'' # encode_string src
         else if b = CR then bs # CHR ''r'' # encode_string src
         else if b = TAB then bs # CHR ''t'' # encode_string src
         else bs # ''u00'' @ [hex (byte b div 16), hex (byte b mod 16)] @ encode_string src)
      else if DecodeRune (take 4 (b # src)) = (RuneError, 1) then
        bs # ''ufffd'' @ encode_string src
      else if fst (DecodeRune (take 4 (b # src))) = 0x2028
             \<or> fst (DecodeRune (take 4 (b # src))) = 0x2029 then
        bs # ''u202'' @ [hex (fst (DecodeRune (take 4 (b # src))) mod 16)]
          @ encode_string (drop (snd (DecodeRune (take 4 (b # src))) - 1) src)
      else
        take (snd (DecodeRune (take 4 (b # src)))) (b # src)
          @ encode_string (drop (snd (DecodeRune (take 4 (b # src))) - 1) src))"
  by pat_completeness auto
termination
  by (relation "measure length") auto

text \<open>
  One struct with the indentation of an array element, and the whole array. A slice
  that holds no element is the nil slice of \<^verbatim>\<open>var fileDataList []FileData\<close>, which
  is written \<^verbatim>\<open>null\<close>; \<^verbatim>\<open>processFile\<close> only ever marshals after an append. No
  value of type \<^verbatim>\<open>[]FileData\<close> makes the encoder fail, so the result is always
  \<open>Inr\<close>; the sum keeps the source's error branch.
\<close>

definition encode_record :: "FileData \<Rightarrow> string" where
  "encode_record r =
     ''  {'' @ [LF] @ ''    '' @ [dq] @ ''path'' @ [dq] @ '': '' @ [dq] @ encode_string (Path r) @ [dq]
       @ '','' @ [LF] @ ''    '' @ [dq] @ ''size'' @ [dq] @ '': '' @ FormatInt (sint (Size r))
       @ [LF] @ ''  }''"

fun encode_records :: "FileData list \<Rightarrow> string" where
  "encode_records [] = []"
| "encode_records [r] = encode_record r @ [LF]"
| "encode_records (r # rs) = encode_record r @ '','' @ [LF] @ encode_records rs"

datatype json_error = SyntaxError | UnmarshalTypeError | UnsupportedTypeError

definition MarshalIndent :: "FileData list \<Rightarrow> json_error + string" where
  "MarshalIndent v =
     (if v = [] then Inr ''null'' else Inr (''['' @ [LF] @ encode_records v @ '']''))"

subsection \<open>Decoding: \<^verbatim>\<open>json.Unmarshal(data, &fileDataList)\<close>\<close>

text \<open>
  \<^verbatim>\<open>Unmarshal\<close> first checks that the whole input is one JSON value (its scanner),
  then stores the value into the slice. The model parses the input into a tree, which
  fails where the scanner reports a syntax error, and then converts the tree.
  Numbers keep their literal; strings are unquoted as \<^verbatim>\<open>unquoteBytes\<close> does.
\<close>

datatype json =
  JNull
  | JBool bool
  | JNum string
  | JStr string
  | JArr "json list"
  | JObj "(string \<times> json) list"

definition isSpace :: "char \<Rightarrow> bool" where
  "isSpace c = (c = CHR '' '' \<or> c = TAB \<or> c = CR \<or> c = LF)"

definition skip_ws :: "string \<Rightarrow> string" where
  "skip_ws s = dropWhile isSpace s"

definition isDigit :: "char \<Rightarrow> bool" where
  "isDigit c = (48 \<le> byte c \<and> byte c \<le> 57)"

definition hexval :: "char \<Rightarrow> nat option" where
  "hexval c =
     (if 48 \<le> byte c \<and> byte c \<le> 57 then Some (byte c - 48)
      else if 97 \<le> byte c \<and> byte c \<le> 102 then Some (byte c - 97 + 10)
      else if 65 \<le> byte c \<and> byte c \<le> 70 then Some (byte c - 65 + 10)
      else None)"

text \<open>
  The scanner inside a string literal, after the opening quote: the raw bytes up to the
  closing quote and the input after it. A control byte, an unknown escape or the end of
  the input is a syntax error.
\<close>

function scan_string :: "string \<Rightarrow> (string \<times> string) option" where
  "scan_string [] = None"
| "scan_string (c # cs) =
     (if c = dq then Some ([], cs)
      else if c = bs then
        (case cs of
           [] \<Rightarrow> None
         | e # cs' \<Rightarrow>
             if e = CHR ''b'' \<or> e = CHR ''f'' \<or> e = CHR ''n'' \<or> e = CHR ''r'' \<or> e = CHR ''t''
                \<or> e = bs \<or> e = CHR ''/'' \<or> e = dq
             then map_option (\<lambda>(raw, rest). (c # e # raw, rest)) (scan_string cs')
             else if e = CHR ''u'' \<and> 4 \<le> length cs' \<and> list_all (\<lambda>h. hexval h \<noteq> None) (take 4 cs')
             then map_option (\<lambda>(raw, rest). (c # e # take 4 cs' @ raw, rest)) (scan_string (drop 4 cs'))
             else None)
      else if byte c < 0x20 then None
      else map_option (\<lambda>(raw, rest). (c # raw, rest)) (scan_string cs))"
  by pat_completeness auto
termination
  by (relation "measure length") auto

text \<open>
  \<^verbatim>\<open>getu4\<close>: the value of a \<^verbatim>\<open>\uXXXX\<close> escape at the head of the bytes, \<open>None\<close>
  (Go: -1) when there is none.
\<close>

definition getu4 :: "string \<Rightarrow> nat option" where
  "getu4 s =
     (case s of
        c0 # c1 # h1 # h2 # h3 # h4 # _ \<Rightarrow>
          if c0 \<noteq> bs \<or> c1 \<noteq> CHR ''u'' then None
          else
            (case (hexval h1, hexval h2, hexval h3, hexval h4) of
               (Some a, Some b, Some c, Some d) \<Rightarrow> Some (((a * 16 + b) * 16 + c) * 16 + d)
             | _ \<Rightarrow> None)
      | _ \<Rightarrow> None)"

text \<open>
  \<^verbatim>\<open>unquoteBytes\<close> on the raw bytes between the quotes: escapes are replaced, a
  \<^verbatim>\<open>\u\<close> escape becomes the UTF-8 of its rune (a surrogate pair one rune, a lone
  surrogate U+FFFD), and every byte from 0x80 on is decoded and encoded again, which
  coerces the text to well-formed UTF-8.
\<close>

function unquote :: "string \<Rightarrow> string option" where
  "unquote [] = Some []"
| "unquote (c # cs) =
     (if c = bs then
        (case cs of
           [] \<Rightarrow> None
         | e # cs' \<Rightarrow>
             if e = dq \<or> e = bs \<or> e = CHR ''/'' \<or> e = CHR 0x27
             then map_option ((#) e) (unquote cs')
             else if e = CHR ''b'' then map_option ((#) (CHR 0x08)) (unquote cs')
             else if e = CHR ''f'' then map_option ((#) (CHR 0x0C)) (unquote cs')
             else if e = CHR ''n'' then map_option ((#) LF) (unquote cs')
             else if e = CHR ''r'' then map_option ((#) CR) (unquote cs')
             else if e = CHR ''t'' then map_option ((#) TAB) (unquote cs')
             else if e = CHR ''u'' then
               (case getu4 (c # cs) of
                  None \<Rightarrow> None
                | Some rr \<Rightarrow>
                    if IsSurrogate rr
                         \<and> utf16_DecodeRune rr (getu4 (drop 5 cs)) \<noteq> RuneError
                    then map_option ((@) (EncodeRune (utf16_DecodeRune rr (getu4 (drop 5 cs)))))
                           (unquote (drop 11 cs))
                    else if IsSurrogate rr
                    then map_option ((@) (EncodeRune RuneError)) (unquote (drop 5 cs))
                    else map_option ((@) (EncodeRune rr)) (unquote (drop 5 cs)))
             else None)
      else if c = dq \<or> byte c < 0x20 then None
      else if byte c < 0x80 then map_option ((#) c) (unquote cs)
      else map_option ((@) (EncodeRune (fst (DecodeRune (c # cs)))))
             (unquote (drop (snd (DecodeRune (c # cs)) - 1) cs)))"
  by pat_completeness auto
termination
  by (relation "measure length") auto

text \<open>
  The scanner on a number: an optional minus, an integer part without a leading zero,
  an optional fraction and an optional exponent. The result is the literal and the
  input after it.
\<close>

definition scan_frac :: "string \<Rightarrow> (string \<times> string) option" where
  "scan_frac s =
     (case s of
        [] \<Rightarrow> Some ([], s)
      | c # t \<Rightarrow>
          if c = CHR ''.'' then
            (if takeWhile isDigit t = [] then None
             else Some (c # takeWhile isDigit t, dropWhile isDigit t))
          else Some ([], s))"

definition scan_exp :: "string \<Rightarrow> (string \<times> string) option" where
  "scan_exp s =
     (case s of
        [] \<Rightarrow> Some ([], s)
      | c # t \<Rightarrow>
          if c = CHR ''e'' \<or> c = CHR ''E'' then
            (let sg = (case t of [] \<Rightarrow> [] | g # _ \<Rightarrow> if g = CHR ''+'' \<or> g = CHR ''-'' then [g] else []);
                 t' = drop (length sg) t
             in if takeWhile isDigit t' = [] then None
                else Some (c # sg @ takeWhile isDigit t', dropWhile isDigit t'))
          else Some ([], s))"

definition scan_number :: "string \<Rightarrow> (string \<times> string) option" where
  "scan_number s =
     (let sg = (case s of [] \<Rightarrow> [] | g # _ \<Rightarrow> if g = CHR ''-'' then [g] else []);
          s1 = drop (length sg) s
      in case s1 of
           [] \<Rightarrow> None
         | d # t \<Rightarrow>
             if \<not> isDigit d then None
             else
               (let ip = (if d = CHR ''0'' then [d] else takeWhile isDigit s1) in
                case scan_frac (drop (length ip) s1) of
                  None \<Rightarrow> None
                | Some (fr, s2) \<Rightarrow>
                    (case scan_exp s2 of
                       None \<Rightarrow> None
                     | Some (ex, s3) \<Rightarrow> Some (sg @ ip @ fr @ ex, s3))))"

text \<open>
  The parser. The first argument bounds the number of nested calls; \<open>Unmarshal\<close>
  below starts it above the length of the input, and every call consumes a byte.
  \<open>parse_value\<close> expects its input to start at the value; \<open>parse_elems\<close> reads
  the elements of an array after the bracket, \<open>parse_members\<close> the members of an
  object after the brace.
\<close>

fun parse_value :: "nat \<Rightarrow> string \<Rightarrow> (json \<times> string) option"
  and parse_elems :: "nat \<Rightarrow> string \<Rightarrow> (json list \<times> string) option"
  and parse_members :: "nat \<Rightarrow> string \<Rightarrow> ((string \<times> json) list \<times> string) option"
where
  "parse_value 0 s = None"
| "parse_value (Suc n) s =
     (case s of
        [] \<Rightarrow> None
      | c # cs \<Rightarrow>
          if c = CHR 0x7B then
            (case skip_ws cs of
               [] \<Rightarrow> None
             | k # r \<Rightarrow>
                 if k = CHR 0x7D then Some (JObj [], r)
                 else map_option (\<lambda>(ms, rest). (JObj ms, rest)) (parse_members n (k # r)))
          else if c = CHR ''['' then
            (case skip_ws cs of
               [] \<Rightarrow> None
             | k # r \<Rightarrow>
                 if k = CHR '']'' then Some (JArr [], r)
                 else map_option (\<lambda>(vs, rest). (JArr vs, rest)) (parse_elems n (k # r)))
          else if c = dq then
            (case scan_string cs of
               None \<Rightarrow> None
             | Some (raw, rest) \<Rightarrow> map_option (\<lambda>t. (JStr t, rest)) (unquote raw))
          else if c = CHR ''-'' \<or> isDigit c then
            map_option (\<lambda>(lit, rest). (JNum lit, rest)) (scan_number s)
          else if take 4 s = ''true'' then Some (JBool True, drop 4 s)
          else if take 5 s = ''false'' then Some (JBool False, drop 5 s)
          else if take 4 s = ''null'' then Some (JNull, drop 4 s)
          else None)"
| "parse_elems 0 s = None"
| "parse_elems (Suc n) s =
     (case parse_value n s of
        None \<Rightarrow> None
      | Some (v, r) \<Rightarrow>
          (case skip_ws r of
             [] \<Rightarrow> None
           | c # r' \<Rightarrow>
               if c = CHR '','' then
                 map_option (\<lambda>(vs, rest). (v # vs, rest)) (parse_elems n (skip_ws r'))
               else if c = CHR '']'' then Some ([v], r')
               else None))"
| "parse_members 0 s = None"
| "parse_members (Suc n) s =
     (case s of
        [] \<Rightarrow> None
      | q # cs \<Rightarrow>
          if q \<noteq> dq then None
          else
            (case scan_string cs of
               None \<Rightarrow> None
             | Some (raw, r) \<Rightarrow>
                 (case (unquote raw, skip_ws r) of
                    (Some key, c # r1) \<Rightarrow>
                      if c \<noteq> CHR '':'' then None
                      else
                        (case parse_value n (skip_ws r1) of
                           None \<Rightarrow> None
                         | Some (v, r2) \<Rightarrow>
                             (case skip_ws r2 of
                                [] \<Rightarrow> None
                              | c' # r3 \<Rightarrow>
                                  if c' = CHR '','' then
                                    map_option (\<lambda>(ms, rest). ((key, v) # ms, rest))
                                      (parse_members n (skip_ws r3))
                                  else if c' = CHR 0x7D then Some ([(key, v)], r3)
                                  else None))
                  | _ \<Rightarrow> None)))"

text \<open>
  \<^verbatim>\<open>strconv.ParseInt(s, 10, 64)\<close>: an optional sign and decimal digits, within
  the range of \<^verbatim>\<open>int64\<close>; \<open>None\<close> is its error.
\<close>

definition ParseInt :: "string \<Rightarrow> int option" where
  "ParseInt s =
     (let sg = (case s of [] \<Rightarrow> [] | g # _ \<Rightarrow> if g = CHR ''+'' \<or> g = CHR ''-'' then [g] else []);
          ds = drop (length sg) s
      in if ds = [] \<or> \<not> list_all isDigit ds then None
         else
           (let n = foldl (\<lambda>a c. a * 10 + (byte c - 48)) 0 ds;
                v = (if sg = ''-'' then - int n else int n)
            in if v < - (2 ^ 63) \<or> 2 ^ 63 \<le> v then None else Some v))"

text \<open>
  Matching an object key to a field name: the exact name, or the name up to case
  (\<^verbatim>\<open>equalFoldRight\<close>, where the long s U+017F counts as an s and the Kelvin sign
  U+212A as a k). \<open>upper\<close> clears bit 0x20, as \<^verbatim>\<open>b & caseMask\<close> does.
\<close>

definition upper :: "char \<Rightarrow> nat" where
  "upper b = (if (byte b div 32) mod 2 = 1 then byte b - 32 else byte b)"

fun equalFold :: "string \<Rightarrow> string \<Rightarrow> bool" where
  "equalFold [] t = (t = [])"
| "equalFold (sb # s) [] = False"
| "equalFold (sb # s) (tb # t) =
     (if byte tb < 0x80 then
        (sb = tb \<or> (65 \<le> upper sb \<and> upper sb \<le> 90 \<and> upper sb = upper tb)) \<and> equalFold s t
      else
        (if upper sb = 83 then fst (DecodeRune (tb # t)) = 0x17F
         else if upper sb = 75 then fst (DecodeRune (tb # t)) = 0x212A
         else False)
        \<and> equalFold s (drop (snd (DecodeRune (tb # t)) - 1) t))"

text \<open>
  Storing a JSON value into a field: a string into \<open>Path\<close>, an integer literal within
  range into \<open>Size\<close>; \<^verbatim>\<open>null\<close> leaves the field as it is; any other value is an
  \<^verbatim>\<open>UnmarshalTypeError\<close>. A key that matches no field is skipped. Go goes on decoding
  after such an error and returns the first one at the end; the model returns it at once.
\<close>

fun decode_members :: "(string \<times> json) list \<Rightarrow> FileData \<Rightarrow> json_error + FileData" where
  "decode_members [] r = Inr r"
| "decode_members ((k, v) # ms) r =
     (if equalFold ''path'' k then
        (case v of
           JStr t \<Rightarrow> decode_members ms (r\<lparr>Path := t\<rparr>)
         | JNull \<Rightarrow> decode_members ms r
         | _ \<Rightarrow> Inl UnmarshalTypeError)
      else if equalFold ''size'' k then
        (case v of
           JNum lit \<Rightarrow>
             (case ParseInt lit of
                None \<Rightarrow> Inl UnmarshalTypeError
              | Some i \<Rightarrow> decode_members ms (r\<lparr>Size := word_of_int i\<rparr>))
         | JNull \<Rightarrow> decode_members ms r
         | _ \<Rightarrow> Inl UnmarshalTypeError)
      else decode_members ms r)"

definition decode_record :: "json \<Rightarrow> json_error + FileData" where
  "decode_record v =
     (case v of
        JObj ms \<Rightarrow> decode_members ms \<lparr>Path = [], Size = 0\<rparr>
      | JNull \<Rightarrow> Inr \<lparr>Path = [], Size = 0\<rparr>
      | _ \<Rightarrow> Inl UnmarshalTypeError)"

fun decode_records :: "json list \<Rightarrow> json_error + FileData list" where
  "decode_records [] = Inr []"
| "decode_records (v # vs) =
     (case decode_record v of
        Inl e \<Rightarrow> Inl e
      | Inr r \<Rightarrow> (case decode_records vs of Inl e \<Rightarrow> Inl e | Inr rs \<Rightarrow> Inr (r # rs)))"

text \<open>
  \<^verbatim>\<open>json.Unmarshal(data, &fileDataList)\<close> for the nil slice that \<^verbatim>\<open>processFile\<close>
  declares: an array gives its records, \<^verbatim>\<open>null\<close> leaves the slice nil, any other
  value is an \<^verbatim>\<open>UnmarshalTypeError\<close>; input that is not one JSON value between optional
  white space is a \<^verbatim>\<open>SyntaxError\<close>.
\<close>

definition Unmarshal :: "string \<Rightarrow> json_error + FileData list" where
  "Unmarshal data =
     (case parse_value (Suc (length data)) (skip_ws data) of
        None \<Rightarrow> Inl SyntaxError
      | Some (v, rest) \<Rightarrow>
          if skip_ws rest \<noteq> [] then Inl SyntaxError
          else
            (case v of
               JArr vs \<Rightarrow> decode_records vs
             | JNull \<Rightarrow> Inr []
             | _ \<Rightarrow> Inl UnmarshalTypeError))"

section \<open>The file system\<close>

text \<open>
  The part of the operating system that \<^verbatim>\<open>processFile\<close> talks to: the files by
  path with their contents, and for each of the three calls the faults the environment
  may inject on a path (a permission error, an I/O error, a full disk). A write fault
  names the stage at which \<^verbatim>\<open>ioutil.WriteFile\<close> fails: opening the file, or writing
  after the file was opened and truncated, with the number of bytes that reached it.
\<close>

datatype errno = ENOENT | EACCES | EIO | ENOSPC

datatype write_fault = OpenFails errno | WriteFails errno nat

record filesystem =
  files :: "string \<rightharpoonup> string"
  stat_fault :: "string \<rightharpoonup> errno"
  read_fault :: "string \<rightharpoonup> errno"
  write_fault :: "string \<rightharpoonup> write_fault"

text \<open>\<^verbatim>\<open>os.Stat(name)\<close>: the size of the file (all that the program reads of it).\<close>

definition Stat :: "string \<Rightarrow> filesystem \<Rightarrow> errno + 64 word" where
  "Stat name fs =
     (case stat_fault fs name of
        Some e \<Rightarrow> Inl e
      | None \<Rightarrow>
          (case files fs name of
             None \<Rightarrow> Inl ENOENT
           | Some content \<Rightarrow> Inr (of_nat (length content))))"

text \<open>\<^verbatim>\<open>ioutil.ReadFile(name)\<close>\<close>

definition ReadFile :: "string \<Rightarrow> filesystem \<Rightarrow> errno + string" where
  "ReadFile name fs =
     (case read_fault fs name of
        Some e \<Rightarrow> Inl e
      | None \<Rightarrow> (case files fs name of None \<Rightarrow> Inl ENOENT | Some content \<Rightarrow> Inr content))"

text \<open>
  \<^verbatim>\<open>ioutil.WriteFile(name, data, 0644)\<close> opens the file with
  \<^verbatim>\<open>O_WRONLY|O_CREATE|O_TRUNC\<close>, writes the data and closes the file: it writes in
  place. \<open>WriteFile_upto k\<close> is the file system once the file was opened and \<open>k\<close>
  bytes were written, which is what a reader sees when the call stops there.
\<close>

definition WriteFile_upto :: "nat \<Rightarrow> string \<Rightarrow> string \<Rightarrow> filesystem \<Rightarrow> filesystem" where
  "WriteFile_upto k name data fs = fs\<lparr>files := (files fs)(name \<mapsto> take k data)\<rparr>"

definition WriteFile :: "string \<Rightarrow> string \<Rightarrow> filesystem \<Rightarrow> errno option \<times> filesystem" where
  "WriteFile name data fs =
     (case write_fault fs name of
        Some (OpenFails e) \<Rightarrow> (Some e, fs)
      | Some (WriteFails e k) \<Rightarrow> (Some e, WriteFile_upto k name data fs)
      | None \<Rightarrow> (None, WriteFile_upto (length data) name data fs))"

section \<open>\<^verbatim>\<open>processFile\<close>\<close>

text \<open>
  What one call logged, if anything: each constructor but \<open>Stored\<close> is one of the
  \<^verbatim>\<open>log.Printf\<close> lines of \<^verbatim>\<open>processFile\<close>.
\<close>

datatype outcome =
  FailedToStatFile errno
  | FailedToReadStorage errno
  | FailedToUnmarshal json_error
  | FailedToMarshal json_error
  | FailedToWriteStorage errno
  | Stored

text \<open>
  Lines 108 to 120: the existing data. When \<^verbatim>\<open>os.Stat\<close> of the storage location
  gives an error, whatever the error, the file is not read and the list stays nil;
  otherwise the file is read and decoded, and a failure of either is logged and ends
  the call.
\<close>

definition readExisting :: "string \<Rightarrow> filesystem \<Rightarrow> outcome + FileData list" where
  "readExisting storageLocation fs =
     (case Stat storageLocation fs of
        Inl e \<Rightarrow> Inr []
      | Inr info \<Rightarrow>
          (case ReadFile storageLocation fs of
             Inl e \<Rightarrow> Inl (FailedToReadStorage e)
           | Inr data \<Rightarrow>
               (case Unmarshal data of
                  Inl e \<Rightarrow> Inl (FailedToUnmarshal e)
                | Inr fileDataList \<Rightarrow> Inr fileDataList)))"

text \<open>Lines 125 to 133: marshal the updated list and write it over the file.\<close>

definition writeUpdated :: "FileData list \<Rightarrow> string \<Rightarrow> filesystem \<Rightarrow> outcome \<times> filesystem" where
  "writeUpdated fileDataList storageLocation fs =
     (case MarshalIndent fileDataList of
        Inl e \<Rightarrow> (FailedToMarshal e, fs)
      | Inr data \<Rightarrow>
          (case WriteFile storageLocation data fs of
             (Some e, fs') \<Rightarrow> (FailedToWriteStorage e, fs')
           | (None, fs') \<Rightarrow> (Stored, fs')))"

text \<open>
  Lines 108 to 133, the append to the store: read the existing data, append the record
  (line 123), write the updated data.
\<close>

definition appendRecord :: "FileData \<Rightarrow> string \<Rightarrow> filesystem \<Rightarrow> outcome \<times> filesystem" where
  "appendRecord fileData storageLocation fs =
     (case readExisting storageLocation fs of
        Inl failure \<Rightarrow> (failure, fs)
      | Inr fileDataList \<Rightarrow> writeUpdated (fileDataList @ [fileData]) storageLocation fs)"

text \<open>Lines 94 to 106, then the rest.\<close>

definition processFile :: "string \<Rightarrow> string \<Rightarrow> filesystem \<Rightarrow> outcome \<times> filesystem" where
  "processFile path storageLocation fs =
     (case Stat path fs of
        Inl e \<Rightarrow> (FailedToStatFile e, fs)
      | Inr sz \<Rightarrow> appendRecord \<lparr>Path = path, Size = sz\<rparr> storageLocation fs)"

text \<open>
  The ledger a reader finds at the storage location, read the way \<^verbatim>\<open>processFile\<close>
  reads it: no file is the empty ledger, a file that does not parse is no ledger.
\<close>

definition ledger :: "string \<Rightarrow> filesystem \<Rightarrow> FileData list option" where
  "ledger storageLocation fs =
     (case files fs storageLocation of
        None \<Rightarrow> Some []
      | Some data \<Rightarrow> (case Unmarshal data of Inl e \<Rightarrow> None | Inr l \<Rightarrow> Some l))"


text \<open>A file system without faults, for the examples.\<close>

definition plain_fs :: "(string \<rightharpoonup> string) \<Rightarrow> filesystem" where
  "plain_fs fl = \<lparr>files = fl, stat_fault = Map.empty, read_fault = Map.empty,
                   write_fault = Map.empty\<rparr>"

section \<open>Concurrent calls\<close>

text \<open>
  Several workers run \<^verbatim>\<open>processFile\<close> at once on the same storage location, and the
  program takes no lock. A call of the append is modelled in its two accesses to the
  file system, each taken as atomic: reading the existing data, and writing the updated
  data. Between the two, the call holds the list it read, with its record appended.
  A schedule is the order in which the calls take their steps.
\<close>

datatype call = Pending FileData | Loaded "FileData list" | Finished outcome

definition step_call :: "string \<Rightarrow> call \<Rightarrow> filesystem \<Rightarrow> call \<times> filesystem" where
  "step_call storageLocation c fs =
     (case c of
        Pending fileData \<Rightarrow>
          (case readExisting storageLocation fs of
             Inl failure \<Rightarrow> (Finished failure, fs)
           | Inr fileDataList \<Rightarrow> (Loaded (fileDataList @ [fileData]), fs))
      | Loaded fileDataList \<Rightarrow>
          (case writeUpdated fileDataList storageLocation fs of (out, fs') \<Rightarrow> (Finished out, fs'))
      | Finished out \<Rightarrow> (Finished out, fs))"

fun run :: "string \<Rightarrow> nat list \<Rightarrow> call list \<times> filesystem \<Rightarrow> call list \<times> filesystem" where
  "run storageLocation [] cfg = cfg"
| "run storageLocation (i # schedule) (calls, fs) =
     (if i < length calls then
        (case step_call storageLocation (calls ! i) fs of
           (c, fs') \<Rightarrow> run storageLocation schedule (calls[i := c], fs'))
      else run storageLocation schedule (calls, fs))"

text \<open>The schedule in which the calls run one after the other, in the given order.\<close>

definition serial :: "nat list \<Rightarrow> nat list" where
  "serial order = concat (map (\<lambda>i. [i, i]) order)"

section \<open>The pipeline of \<^verbatim>\<open>main\<close>\<close>

text \<open>
  An event of the watcher: the name of the file and the operations as a bit mask
  (\<^verbatim>\<open>fsnotify.Op\<close>: Create is bit 0, Write bit 1, then Remove, Rename, Chmod). The
  test of line 77 is \<open>wanted\<close>.
\<close>

record Event =
  Name :: string
  Op :: "32 word"

definition Create :: "32 word" where
  "Create = 1"

definition Write :: "32 word" where
  "Write = 2"

definition wanted :: "Event \<Rightarrow> bool" where
  "wanted event = (and (Op event) Create = Create \<or> and (Op event) Write = Write)"

text \<open>
  What the watcher delivers on its two channels while it is open, in the order in which
  the dispatching goroutine selects it. The watcher closes its channels only in
  \<^verbatim>\<open>watcher.Close()\<close>, and the only call of it is the one deferred at line 46, which
  runs when \<^verbatim>\<open>main\<close> returns.
\<close>

datatype notification = OnEvents Event | OnErrors string

text \<open>
  The state of the running program (lines 46 to 92): the notifications still to come
  and whether the watcher is closed, the dispatching goroutine (running or returned, and
  the name it is sending when it stands at \<^verbatim>\<open>fileChan <- event.Name\<close>), the buffered
  channel and whether it is closed, the counter of the wait group (the workers that have
  not returned), the exit code once the process has ended, the file system, and the
  configuration. The configured level is a natural number here; a negative one makes
  \<^verbatim>\<open>make\<close> panic at line 55.
\<close>

record pipeline =
  source :: "notification list"
  watcherClosed :: bool
  dispatching :: bool
  sending :: "string option"
  fileChan :: "string list"
  chanClosed :: bool
  wg :: nat
  exitCode :: "nat option"
  disk :: filesystem
  ConcurrencyLevel :: nat
  StorageLocation :: string

definition start :: "nat \<Rightarrow> string \<Rightarrow> notification list \<Rightarrow> filesystem \<Rightarrow> pipeline" where
  "start level location notifications fs =
     \<lparr>source = notifications, watcherClosed = False, dispatching = True, sending = None,
      fileChan = [], chanClosed = False, wg = level, exitCode = None, disk = fs,
      ConcurrencyLevel = level, StorageLocation = location\<rparr>"

text \<open>
  One step of one goroutine, while the process runs. The dispatcher receives an event
  (line 73) or an error (line 80) from the open watcher, or finds the channels closed
  and returns (lines 74 to 76, 81 to 83); its send (line 78) goes through when the
  buffer has room, blocks while it has none, and panics on a closed channel, which ends
  the process with status 2. A worker receives a path and processes it (lines 63 to
  65; the call of \<^verbatim>\<open>processFile\<close> is one step here, the interleaving of several
  calls is the subject of the section on concurrent calls), or leaves its loop when the
  channel is closed and empty (line 62). \<^verbatim>\<open>main\<close> passes \<^verbatim>\<open>wg.Wait()\<close> when the
  counter is zero and closes the channel (lines 90 and 91); on its return the deferred
  \<^verbatim>\<open>watcher.Close()\<close> runs (line 46), and the process ends with status 0.
\<close>

inductive step :: "pipeline \<Rightarrow> pipeline \<Rightarrow> bool" where
  receive_event:
    "exitCode p = None \<Longrightarrow> dispatching p \<Longrightarrow> sending p = None \<Longrightarrow> \<not> watcherClosed p
     \<Longrightarrow> source p = OnEvents event # rest
     \<Longrightarrow> step p (p\<lparr>source := rest, sending := (if wanted event then Some (Name event) else None)\<rparr>)"
| receive_error:
    "exitCode p = None \<Longrightarrow> dispatching p \<Longrightarrow> sending p = None \<Longrightarrow> \<not> watcherClosed p
     \<Longrightarrow> source p = OnErrors err # rest
     \<Longrightarrow> step p (p\<lparr>source := rest\<rparr>)"
| channels_closed:
    "exitCode p = None \<Longrightarrow> dispatching p \<Longrightarrow> sending p = None \<Longrightarrow> watcherClosed p
     \<Longrightarrow> step p (p\<lparr>dispatching := False\<rparr>)"
| send:
    "exitCode p = None \<Longrightarrow> sending p = Some name \<Longrightarrow> \<not> chanClosed p
     \<Longrightarrow> length (fileChan p) < ConcurrencyLevel p
     \<Longrightarrow> step p (p\<lparr>fileChan := fileChan p @ [name], sending := None\<rparr>)"
| send_on_closed:
    "exitCode p = None \<Longrightarrow> sending p = Some name \<Longrightarrow> chanClosed p
     \<Longrightarrow> step p (p\<lparr>exitCode := Some 2\<rparr>)"
| process:
    "exitCode p = None \<Longrightarrow> 0 < wg p \<Longrightarrow> fileChan p = path # queue
     \<Longrightarrow> step p (p\<lparr>fileChan := queue,
                       disk := snd (processFile path (StorageLocation p) (disk p))\<rparr>)"
| worker_returns:
    "exitCode p = None \<Longrightarrow> 0 < wg p \<Longrightarrow> fileChan p = [] \<Longrightarrow> chanClosed p
     \<Longrightarrow> step p (p\<lparr>wg := wg p - 1\<rparr>)"
| main_closes_queue:
    "exitCode p = None \<Longrightarrow> wg p = 0 \<Longrightarrow> \<not> chanClosed p
     \<Longrightarrow> step p (p\<lparr>chanClosed := True\<rparr>)"
| main_closes_watcher:
    "exitCode p = None \<Longrightarrow> chanClosed p \<Longrightarrow> \<not> watcherClosed p
     \<Longrightarrow> step p (p\<lparr>watcherClosed := True\<rparr>)"
| main_returns:
    "exitCode p = None \<Longrightarrow> watcherClosed p
     \<Longrightarrow> step p (p\<lparr>exitCode := Some 0\<rparr>)"

text \<open>
  The names the program still has to hand to a worker: those in the channel, the one the
  dispatcher is sending, and the names of the wanted events still to come.
\<close>

fun wanted_names :: "notification list \<Rightarrow> string list" where
  "wanted_names [] = []"
| "wanted_names (OnEvents event # rest) =
     (if wanted event then Name event # wanted_names rest else wanted_names rest)"
| "wanted_names (OnErrors err # rest) = wanted_names rest"

definition pending :: "pipeline \<Rightarrow> string list" where
  "pending p =
     fileChan p @ (case sending p of None \<Rightarrow> [] | Some name \<Rightarrow> [name]) @ wanted_names (source p)"

section \<open>Auxiliary notions for the proofs\<close>

text \<open>
  What a record looks like after a trip through the file: its path coerced to
  well-formed UTF-8.
\<close>

definition coerce :: "FileData \<Rightarrow> FileData" where
  "coerce r = r\<lparr>Path := ToValidUTF8 (Path r)\<rparr>"

text \<open>Input after which a number literal ends.\<close>

definition stops :: "string \<Rightarrow> bool" where
  "stops rest = (case rest of [] \<Rightarrow> True
     | c # _ \<Rightarrow> \<not> isDigit c \<and> c \<noteq> CHR ''.'' \<and> c \<noteq> CHR ''e'' \<and> c \<noteq> CHR ''E'')"

text \<open>The tree that the parser builds for an encoded record, and the encoded record
  from its brace on, followed by more input.\<close>

definition jrec :: "FileData \<Rightarrow> json" where
  "jrec r = JObj [(''path'', JStr (ToValidUTF8 (Path r))), (''size'', JNum (FormatInt (sint (Size r))))]"

definition record_body :: "FileData \<Rightarrow> string \<Rightarrow> string" where
  "record_body r rest =
     CHR 0x7B # LF # CHR '' '' # CHR '' '' # CHR '' '' # CHR '' ''
       # dq # CHR ''p'' # CHR ''a'' # CHR ''t'' # CHR ''h'' # dq # CHR '':'' # CHR '' ''
       # dq # encode_string (Path r) @ dq # CHR '','' # LF # CHR '' '' # CHR '' '' # CHR '' '' # CHR '' ''
       # dq # CHR ''s'' # CHR ''i'' # CHR ''z'' # CHR ''e'' # dq # CHR '':'' # CHR '' ''
       # FormatInt (sint (Size r)) @ LF # CHR '' '' # CHR '' '' # CHR 0x7D # rest"

text \<open>A JSON tree whose strings are all well-formed UTF-8.\<close>

fun valid_json :: "json \<Rightarrow> bool" where
  "valid_json (JStr t) = ValidString t"
| "valid_json (JArr vs) = (\<forall>v \<in> set vs. valid_json v)"
| "valid_json (JObj ms) = (\<forall>v \<in> snd ` set ms. valid_json v)"
| "valid_json JNull = True"
| "valid_json (JBool b) = True"
| "valid_json (JNum lit) = True"

section \<open>Example ledgers and file systems\<close>

definition two_records :: "FileData list" where
  "two_records = [\<lparr>Path = ''a.txt'', Size = 5\<rparr>, \<lparr>Path = ''b.txt'', Size = 2\<rparr>]"

definition stat_denied :: filesystem where
  "stat_denied = (plain_fs [''db.json'' \<mapsto> projr (MarshalIndent two_records)])
                   \<lparr>stat_fault := [''db.json'' \<mapsto> EACCES]\<rparr>"

definition one_record :: "FileData list" where
  "one_record = [\<lparr>Path = ''a.txt'', Size = 5\<rparr>]"

definition disk_full :: filesystem where
  "disk_full = (plain_fs [''db.json'' \<mapsto> projr (MarshalIndent one_record)])
                 \<lparr>write_fault := [''db.json'' \<mapsto> WriteFails ENOSPC 0]\<rparr>"

definition unparsable :: filesystem where
  "unparsable = plain_fs [''db.json'' \<mapsto> ''oops'']"

definition open_denied :: filesystem where
  "open_denied = (plain_fs Map.empty)\<lparr>write_fault := [''db.json'' \<mapsto> OpenFails EACCES]\<rparr>"

definition interrupted :: filesystem where
  "interrupted = (plain_fs [''db.json'' \<mapsto> projr (MarshalIndent one_record), ''b.txt'' \<mapsto> ''hi''])
                   \<lparr>write_fault := [''db.json'' \<mapsto> WriteFails EIO 1]\<rparr>"

definition close_fails :: filesystem where
  "close_fails = (plain_fs [''db.json'' \<mapsto> projr (MarshalIndent one_record)])
                   \<lparr>write_fault := [''db.json'' \<mapsto>
                        WriteFails EIO (length (projr (MarshalIndent two_records)))]\<rparr>"

definition created_a :: Event where
  "created_a = \<lparr>Name = ''a.txt'', Op = 1\<rparr>"

definition written_b :: Event where
  "written_b = \<lparr>Name = ''b.txt'', Op = 2\<rparr>"

definition removed_c :: Event where
  "removed_c = \<lparr>Name = ''c.txt'', Op = 4\<rparr>"

definition pipe0 :: pipeline where
  "pipe0 = start 1 ''db.json'' [OnEvents created_a, OnEvents written_b] (plain_fs Map.empty)"

definition pipe1 :: pipeline where
  "pipe1 = pipe0\<lparr>source := [OnEvents written_b], sending := Some ''a.txt''\<rparr>"

definition pipe2 :: pipeline where
  "pipe2 = pipe1\<lparr>fileChan := [''a.txt''], sending := None\<rparr>"

definition pipe3 :: pipeline where
  "pipe3 = pipe2\<lparr>source := [], sending := Some ''b.txt''\<rparr>"

definition pipe4 :: pipeline where
  "pipe4 = pipe3\<lparr>fileChan := [],
             disk := snd (processFile ''a.txt'' ''db.json'' (plain_fs Map.empty))\<rparr>"






section \<open>Lemmas on UTF-8 and on the JSON round trip\<close>

lemma mod_shift: "k * m \<le> (a::nat) \<Longrightarrow> a < k * m + m \<Longrightarrow> a mod m = a - k * m"
  by (metis add.commute le_add_diff_inverse mod_less mod_mult_self1 nat_add_left_cancel_less)

lemma div_mod_split:
  fixes x q m :: nat
  assumes "q < m"
  shows "(x * m + q) div m = x" "(x * m + q) mod m = q"
  using assms by simp_all

lemma utf8_two:
  fixes a b :: nat
  assumes bnd: "194 \<le> a" "a < 224" "128 \<le> b" "b \<le> 191"
    and r_def: "r = (a mod 32) * 64 + b mod 64"
  shows "128 \<le> r \<and> r \<le> 2047 \<and> 192 + r div 64 = a \<and> 128 + r mod 64 = b"
proof -
  define x y where "x = a - 192" and "y = b - 128"
  have xy: "2 \<le> x" "x < 32" "y < 64" using bnd by (simp_all add: x_def y_def)
  have a: "a mod 32 = x" using mod_shift [of 6 32 a] bnd by (simp add: x_def)
  have b: "b mod 64 = y" using mod_shift [of 2 64 b] bnd by (simp add: y_def)
  have r: "r = x * 64 + y" by (simp add: r_def a b)
  have d1: "r div 64 = x" unfolding r by (rule div_mod_split(1) [OF xy(3)])
  have d2: "r mod 64 = y" unfolding r by (rule div_mod_split(2) [OF xy(3)])
  have "128 \<le> r" "r \<le> 2047" unfolding r using xy by simp_all
  then show ?thesis using bnd by (simp add: d1 d2 x_def y_def)
qed

lemma utf8_three:
  fixes a b c :: nat
  assumes bnd: "224 \<le> a" "a < 240" "128 \<le> b" "b \<le> 191" "128 \<le> c" "c \<le> 191"
    and lo0: "a = 224 \<Longrightarrow> 160 \<le> b" and hi0: "a = 237 \<Longrightarrow> b \<le> 159"
    and r_def: "r = (a mod 16) * 4096 + (b mod 64) * 64 + c mod 64"
  shows "2048 \<le> r \<and> r \<le> 65535 \<and> \<not> (55296 \<le> r \<and> r < 57344)
    \<and> 224 + r div 4096 = a \<and> 128 + (r div 64) mod 64 = b \<and> 128 + r mod 64 = c"
proof -
  define x y z where "x = a - 224" and "y = b - 128" and "z = c - 128"
  have xyz: "x < 16" "y < 64" "z < 64" using bnd by (simp_all add: x_def y_def z_def)
  have a: "a mod 16 = x" using mod_shift [of 14 16 a] bnd by (simp add: x_def)
  have b: "b mod 64 = y" using mod_shift [of 2 64 b] bnd by (simp add: y_def)
  have c: "c mod 64 = z" using mod_shift [of 2 64 c] bnd by (simp add: z_def)
  have r: "r = x * 4096 + y * 64 + z" by (simp add: r_def a b c)
  have r0: "r = x * 4096 + (y * 64 + z)" by (simp add: r)
  have r': "r = (x * 64 + y) * 64 + z" by (simp add: r)
  have q: "y * 64 + z < 4096" using xyz by simp
  have d1: "r div 4096 = x" unfolding r0 by (rule div_mod_split(1) [OF q])
  have d2: "r div 64 = x * 64 + y" unfolding r' by (rule div_mod_split(1) [OF xyz(3)])
  have d3: "(r div 64) mod 64 = y" unfolding d2 by (rule div_mod_split(2) [OF xyz(2)])
  have d4: "r mod 64 = z" unfolding r' by (rule div_mod_split(2) [OF xyz(3)])
  have lo: "2048 \<le> r"
  proof (cases "a = 224")
    case True
    then have "32 \<le> y" using lo0 by (simp add: y_def)
    then show ?thesis unfolding r by simp
  next
    case False
    then have "1 \<le> x" using bnd by (simp add: x_def)
    then show ?thesis unfolding r by simp
  qed
  have hi: "r \<le> 65535" unfolding r using xyz by simp
  have ns: "\<not> (55296 \<le> r \<and> r < 57344)"
  proof (cases "a = 237")
    case True
    then have "x = 13" "y < 32" using hi0 bnd by (simp_all add: x_def y_def)
    then show ?thesis unfolding r using xyz by simp
  next
    case False
    then have "x < 13 \<or> 13 < x" using bnd by (auto simp: x_def)
    then show ?thesis unfolding r using xyz by auto
  qed
  show ?thesis using lo hi ns bnd by (simp add: d1 d3 d4 x_def y_def z_def)
qed

lemma utf8_four:
  fixes a b c d :: nat
  assumes bnd: "240 \<le> a" "a \<le> 244" "128 \<le> b" "b \<le> 191" "128 \<le> c" "c \<le> 191" "128 \<le> d" "d \<le> 191"
    and lo0: "a = 240 \<Longrightarrow> 144 \<le> b" and hi0: "a = 244 \<Longrightarrow> b \<le> 143"
    and r_def: "r = (a mod 8) * 262144 + (b mod 64) * 4096 + (c mod 64) * 64 + d mod 64"
  shows "65536 \<le> r \<and> r \<le> 1114111
    \<and> 240 + r div 262144 = a \<and> 128 + (r div 4096) mod 64 = b \<and> 128 + (r div 64) mod 64 = c \<and> 128 + r mod 64 = d"
proof -
  define x y z w where "x = a - 240" and "y = b - 128" and "z = c - 128" and "w = d - 128"
  have xyz: "x < 5" "y < 64" "z < 64" "w < 64" using bnd by (simp_all add: x_def y_def z_def w_def)
  have a: "a mod 8 = x" using mod_shift [of 30 8 a] bnd by (simp add: x_def)
  have b: "b mod 64 = y" using mod_shift [of 2 64 b] bnd by (simp add: y_def)
  have c: "c mod 64 = z" using mod_shift [of 2 64 c] bnd by (simp add: z_def)
  have d: "d mod 64 = w" using mod_shift [of 2 64 d] bnd by (simp add: w_def)
  have r: "r = x * 262144 + y * 4096 + z * 64 + w" by (simp add: r_def a b c d)
  have r1: "r = x * 262144 + (y * 4096 + z * 64 + w)" by (simp add: r)
  have r2: "r = (x * 64 + y) * 4096 + (z * 64 + w)" by (simp add: r)
  have r3: "r = ((x * 64 + y) * 64 + z) * 64 + w" by (simp add: r)
  have q1: "y * 4096 + z * 64 + w < 262144" using xyz by simp
  have q2: "z * 64 + w < 4096" using xyz by simp
  have d1: "r div 262144 = x" unfolding r1 by (rule div_mod_split(1) [OF q1])
  have d2: "r div 4096 = x * 64 + y" unfolding r2 by (rule div_mod_split(1) [OF q2])
  have d3: "(r div 4096) mod 64 = y" unfolding d2 by (rule div_mod_split(2) [OF xyz(2)])
  have d4: "r div 64 = (x * 64 + y) * 64 + z" unfolding r3 by (rule div_mod_split(1) [OF xyz(4)])
  have d5: "(r div 64) mod 64 = z" unfolding d4 by (rule div_mod_split(2) [OF xyz(3)])
  have d6: "r mod 64 = w" unfolding r3 by (rule div_mod_split(2) [OF xyz(4)])
  have lo: "65536 \<le> r"
  proof (cases "a = 240")
    case True
    then have "16 \<le> y" using lo0 by (simp add: y_def)
    then show ?thesis unfolding r by simp
  next
    case False
    then have "1 \<le> x" using bnd by (simp add: x_def)
    then show ?thesis unfolding r by simp
  qed
  have hi: "r \<le> 1114111"
  proof (cases "a = 244")
    case True
    then have "x = 4" "y < 16" using hi0 bnd by (simp_all add: x_def y_def)
    then show ?thesis unfolding r using xyz by simp
  next
    case False
    then have "x < 4" using bnd by (simp add: x_def)
    then show ?thesis unfolding r using xyz by simp
  qed
  show ?thesis using lo hi bnd by (simp add: d1 d3 d5 d6 x_def y_def z_def w_def)
qed

lemma DecodeRune_ascii: "byte c < 128 \<Longrightarrow> DecodeRune (c # cs) = (byte c, 1)"
  by (simp add: DecodeRune_def)

lemma DecodeRune_bad_head: "128 \<le> byte c \<Longrightarrow> byte c < 194 \<or> 244 < byte c \<Longrightarrow> DecodeRune (c # cs) = (RuneError, 1)"
  by (auto simp add: DecodeRune_def)

lemma DecodeRune_two: "194 \<le> byte c \<Longrightarrow> byte c < 224 \<Longrightarrow> DecodeRune (c # cs) =
   (case cs of [] \<Rightarrow> (RuneError, 1) | b1 # t \<Rightarrow> if cont b1 then ((byte c mod 32) * 64 + byte b1 mod 64, 2) else (RuneError, 1))"
  by (auto simp add: DecodeRune_def cont_def Let_def split: list.splits)

lemma DecodeRune_three: "224 \<le> byte c \<Longrightarrow> byte c < 240 \<Longrightarrow> DecodeRune (c # cs) =
   (case cs of b1 # b2 # t \<Rightarrow> 
      if cont b1 \<and> cont b2 \<and> (byte c = 224 \<longrightarrow> 160 \<le> byte b1) \<and> (byte c = 237 \<longrightarrow> byte b1 \<le> 159)
      then ((byte c mod 16) * 4096 + (byte b1 mod 64) * 64 + byte b2 mod 64, 3) else (RuneError, 1)
    | _ \<Rightarrow> (RuneError, 1))"
  by (auto simp add: DecodeRune_def cont_def Let_def split: list.splits)

lemma DecodeRune_four: "240 \<le> byte c \<Longrightarrow> byte c \<le> 244 \<Longrightarrow> DecodeRune (c # cs) =
   (case cs of b1 # b2 # b3 # t \<Rightarrow> 
      if cont b1 \<and> cont b2 \<and> cont b3 \<and> (byte c = 240 \<longrightarrow> 144 \<le> byte b1) \<and> (byte c = 244 \<longrightarrow> byte b1 \<le> 143)
      then ((byte c mod 8) * 262144 + (byte b1 mod 64) * 4096 + (byte b2 mod 64) * 64 + byte b3 mod 64, 4) else (RuneError, 1)
    | _ \<Rightarrow> (RuneError, 1))"
  by (auto simp add: DecodeRune_def cont_def Let_def split: list.splits)

lemma DecodeRune_cases:
  assumes "DecodeRune (c # cs) = (r, n)" and "(r, n) \<noteq> (RuneError, 1)"
  obtains (one) "byte c < 128" "r = byte c" "n = 1"
  | (two) b1 t where "cs = b1 # t" "194 \<le> byte c" "byte c < 224" "cont b1"
      "r = (byte c mod 32) * 64 + byte b1 mod 64" "n = 2"
  | (three) b1 b2 t where "cs = b1 # b2 # t" "224 \<le> byte c" "byte c < 240" "cont b1" "cont b2"
      "byte c = 224 \<longrightarrow> 160 \<le> byte b1" "byte c = 237 \<longrightarrow> byte b1 \<le> 159"
      "r = (byte c mod 16) * 4096 + (byte b1 mod 64) * 64 + byte b2 mod 64" "n = 3"
  | (four) b1 b2 b3 t where "cs = b1 # b2 # b3 # t" "240 \<le> byte c" "byte c \<le> 244"
      "cont b1" "cont b2" "cont b3"
      "byte c = 240 \<longrightarrow> 144 \<le> byte b1" "byte c = 244 \<longrightarrow> byte b1 \<le> 143"
      "r = (byte c mod 8) * 262144 + (byte b1 mod 64) * 4096 + (byte b2 mod 64) * 64 + byte b3 mod 64"
      "n = 4"
proof -
  consider "byte c < 128" | "128 \<le> byte c \<and> (byte c < 194 \<or> 244 < byte c)"
    | "194 \<le> byte c \<and> byte c < 224" | "224 \<le> byte c \<and> byte c < 240"
    | "240 \<le> byte c \<and> byte c \<le> 244"
    by linarith
  then show thesis
  proof cases
    case 1
    then have "r = byte c" "n = 1" using assms(1) by (simp_all add: DecodeRune_ascii)
    with 1 show ?thesis by (rule one)
  next
    case 2
    then have "(r, n) = (RuneError, 1)" using assms(1) DecodeRune_bad_head [of c cs] by simp
    then show ?thesis using assms(2) by simp
  next
    case 3
    then have d: "(r, n) = (case cs of [] \<Rightarrow> (RuneError, 1) | b1 # t \<Rightarrow>
        if cont b1 then ((byte c mod 32) * 64 + byte b1 mod 64, 2) else (RuneError, 1))"
      using assms(1) DecodeRune_two [of c cs] by simp
    then obtain b1 t where "cs = b1 # t" "cont b1" "r = (byte c mod 32) * 64 + byte b1 mod 64" "n = 2"
      using assms(2) by (auto split: list.splits if_splits)
    with 3 show ?thesis using two by blast
  next
    case 4
    then have d: "(r, n) = (case cs of b1 # b2 # t \<Rightarrow> 
      if cont b1 \<and> cont b2 \<and> (byte c = 224 \<longrightarrow> 160 \<le> byte b1) \<and> (byte c = 237 \<longrightarrow> byte b1 \<le> 159)
      then ((byte c mod 16) * 4096 + (byte b1 mod 64) * 64 + byte b2 mod 64, 3) else (RuneError, 1)
    | _ \<Rightarrow> (RuneError, 1))"
      using assms(1) DecodeRune_three [of c cs] by simp
    then obtain b1 b2 t where "cs = b1 # b2 # t" "cont b1" "cont b2"
      "byte c = 224 \<longrightarrow> 160 \<le> byte b1" "byte c = 237 \<longrightarrow> byte b1 \<le> 159"
      "r = (byte c mod 16) * 4096 + (byte b1 mod 64) * 64 + byte b2 mod 64" "n = 3"
      using assms(2) by (auto split: list.splits if_splits)
    with 4 show ?thesis using three by blast
  next
    case 5
    then have d: "(r, n) = (case cs of b1 # b2 # b3 # t \<Rightarrow> 
      if cont b1 \<and> cont b2 \<and> cont b3 \<and> (byte c = 240 \<longrightarrow> 144 \<le> byte b1) \<and> (byte c = 244 \<longrightarrow> byte b1 \<le> 143)
      then ((byte c mod 8) * 262144 + (byte b1 mod 64) * 4096 + (byte b2 mod 64) * 64 + byte b3 mod 64, 4) else (RuneError, 1)
    | _ \<Rightarrow> (RuneError, 1))"
      using assms(1) DecodeRune_four [of c cs] by simp
    then obtain b1 b2 b3 t where "cs = b1 # b2 # b3 # t" "cont b1" "cont b2" "cont b3"
      "byte c = 240 \<longrightarrow> 144 \<le> byte b1" "byte c = 244 \<longrightarrow> byte b1 \<le> 143"
      "r = (byte c mod 8) * 262144 + (byte b1 mod 64) * 4096 + (byte b2 mod 64) * 64 + byte b3 mod 64"
      "n = 4"
      using assms(2) by (auto split: list.splits if_splits)
    with 5 show ?thesis using four by blast
  qed
qed

lemma byte_lt_256: "byte c < 256"
  by (simp add: byte_def)

lemma chr_byte: "chr (byte c) = c"
  by (simp add: chr_def byte_def)

lemma chr_eq: "n = byte c \<Longrightarrow> chr n = c"
  by (simp add: chr_byte)

lemma DecodeRune_size:
  "1 \<le> snd (DecodeRune (c # cs)) \<and> snd (DecodeRune (c # cs)) \<le> 4
   \<and> snd (DecodeRune (c # cs)) \<le> length (c # cs)"
proof (cases "DecodeRune (c # cs) = (RuneError, 1)")
  case True
  then show ?thesis by simp
next
  case False
  obtain r n where rn: "DecodeRune (c # cs) = (r, n)" by (cases "DecodeRune (c # cs)")
  with False have "(r, n) \<noteq> (RuneError, 1)" by simp
  from rn this have "1 \<le> n \<and> n \<le> 4 \<and> n \<le> length (c # cs)"
    by (cases rule: DecodeRune_cases) simp_all
  then show ?thesis by (simp add: rn)
qed

lemma Encode_Decode:
  assumes "DecodeRune (c # cs) \<noteq> (RuneError, 1)"
  shows "EncodeRune (fst (DecodeRune (c # cs))) = take (snd (DecodeRune (c # cs))) (c # cs)"
proof -
  obtain r n where rn: "DecodeRune (c # cs) = (r, n)" by (cases "DecodeRune (c # cs)")
  with assms have ne: "(r, n) \<noteq> (RuneError, 1)" by simp
  from rn ne have "EncodeRune r = take n (c # cs)"
  proof (cases rule: DecodeRune_cases)
    case one
    then show ?thesis by (simp add: EncodeRune_def chr_byte)
  next
    case (two b1 t)
    from utf8_two [OF two(2,3) _ _ two(5)] two(4)
    have "128 \<le> r \<and> r \<le> 2047 \<and> 192 + r div 64 = byte c \<and> 128 + r mod 64 = byte b1"
      by (simp add: cont_def)
    then show ?thesis using two(1,6) by (simp add: EncodeRune_def chr_eq)
  next
    case (three b1 b2 t)
    from utf8_three [OF three(2,3) _ _ _ _ _ _ three(8)] three(4,5,6,7)
    have "2048 \<le> r \<and> r \<le> 65535 \<and> \<not> (55296 \<le> r \<and> r < 57344)
      \<and> 224 + r div 4096 = byte c \<and> 128 + (r div 64) mod 64 = byte b1 \<and> 128 + r mod 64 = byte b2"
      by (simp add: cont_def)
    then show ?thesis using three(1,9)
      by (auto simp add: EncodeRune_def chr_eq IsSurrogate_def MaxRune_def)
  next
    case (four b1 b2 b3 t)
    from utf8_four [OF four(2,3) _ _ _ _ _ _ _ _ four(9)] four(4,5,6,7,8)
    have "65536 \<le> r \<and> r \<le> 1114111
      \<and> 240 + r div 262144 = byte c \<and> 128 + (r div 4096) mod 64 = byte b1
      \<and> 128 + (r div 64) mod 64 = byte b2 \<and> 128 + r mod 64 = byte b3"
      by (simp add: cont_def)
    then show ?thesis using four(1,10)
      by (simp add: EncodeRune_def chr_eq IsSurrogate_def MaxRune_def)
  qed
  then show ?thesis by (simp add: rn)
qed

lemma DecodeRune_take4: "DecodeRune (take 4 (c # cs)) = DecodeRune (c # cs)"
proof -
  consider "byte c < 128" | "128 \<le> byte c \<and> (byte c < 194 \<or> 244 < byte c)"
    | "194 \<le> byte c \<and> byte c < 224" | "224 \<le> byte c \<and> byte c < 240"
    | "240 \<le> byte c \<and> byte c \<le> 244"
    by linarith
  then show ?thesis
  proof cases
    case 1
    then show ?thesis by (simp add: DecodeRune_ascii)
  next
    case 2
    then show ?thesis using DecodeRune_bad_head [of c] by simp
  next
    case 3
    then show ?thesis by (cases cs) (simp_all add: DecodeRune_two)
  next
    case 4
    then show ?thesis by (simp add: DecodeRune_three split: list.splits)
  next
    case 5
    then show ?thesis by (simp add: DecodeRune_four split: list.splits)
  qed
qed

lemma DecodeRune_append:
  assumes "DecodeRune (c # cs) \<noteq> (RuneError, 1)"
  shows "DecodeRune (take (snd (DecodeRune (c # cs))) (c # cs) @ t) = DecodeRune (c # cs)"
proof -
  obtain r n where rn: "DecodeRune (c # cs) = (r, n)" by (cases "DecodeRune (c # cs)")
  with assms have ne: "(r, n) \<noteq> (RuneError, 1)" by simp
  from rn ne have "DecodeRune (take n (c # cs) @ t) = (r, n)"
  proof (cases rule: DecodeRune_cases)
    case one
    then show ?thesis by (simp add: DecodeRune_ascii)
  next
    case (two b1 t)
    then show ?thesis by (simp add: DecodeRune_two)
  next
    case (three b1 b2 t)
    then show ?thesis by (simp add: DecodeRune_three)
  next
    case (four b1 b2 b3 t)
    then show ?thesis by (simp add: DecodeRune_four)
  qed
  then show ?thesis by (simp add: rn)
qed

lemma DecodeRune_high_bytes:
  assumes "DecodeRune (c # cs) \<noteq> (RuneError, 1)" and "128 \<le> byte c"
  shows "\<forall>b \<in> set (take (snd (DecodeRune (c # cs))) (c # cs)). 128 \<le> byte b"
proof -
  obtain r n where rn: "DecodeRune (c # cs) = (r, n)" by (cases "DecodeRune (c # cs)")
  with assms have ne: "(r, n) \<noteq> (RuneError, 1)" by simp
  from rn ne have "\<forall>b \<in> set (take n (c # cs)). 128 \<le> byte b"
    using assms(2) by (cases rule: DecodeRune_cases) (simp_all add: cont_def)
  then show ?thesis by (simp add: rn)
qed

lemma hexval_hex_all: "list_all (\<lambda>n. hexval (hex n) = Some n) [0..<16]"
  by code_simp

lemma hexval_hex: "n < 16 \<Longrightarrow> hexval (hex n) = Some n"
  using hexval_hex_all by (simp add: list_all_iff)

lemma DecodeRune_take3: "DecodeRune (c # take 3 cs) = DecodeRune (c # cs)"
  using DecodeRune_take4 [of c cs] by simp

lemma byte_consts:
  "byte dq = 34" "byte bs = 92" "byte LF = 10" "byte CR = 13" "byte TAB = 9"
  by (simp_all add: byte_def dq_def bs_def LF_def CR_def TAB_def)

lemma hex_is_hex: "hexval (hex n) \<noteq> None"
  using hexval_hex [of "n mod 16"] by (simp add: hex_def)

lemma enc_safe: "htmlSafe b \<Longrightarrow> encode_string (b # src) = b # encode_string src"
  by (simp add: htmlSafe_def)

lemma enc_quote: "b = bs \<or> b = dq \<Longrightarrow> encode_string (b # src) = bs # b # encode_string src"
  by (auto simp add: htmlSafe_def byte_consts)

lemma enc_LF: "encode_string (LF # src) = bs # CHR ''n'' # encode_string src"
  by (simp add: htmlSafe_def byte_consts) (simp add: LF_def bs_def dq_def)

lemma enc_CR: "encode_string (CR # src) = bs # CHR ''r'' # encode_string src"
  by (simp add: htmlSafe_def byte_consts) (simp add: LF_def bs_def dq_def CR_def)

lemma enc_TAB: "encode_string (TAB # src) = bs # CHR ''t'' # encode_string src"
  by (simp add: htmlSafe_def byte_consts) (simp add: LF_def bs_def dq_def CR_def TAB_def)

lemma enc_ctl:
  assumes "byte b < 128" "\<not> htmlSafe b" "b \<noteq> bs" "b \<noteq> dq" "b \<noteq> LF" "b \<noteq> CR" "b \<noteq> TAB"
  shows "encode_string (b # src)
         = bs # CHR ''u'' # CHR ''0'' # CHR ''0'' # hex (byte b div 16) # hex (byte b mod 16) # encode_string src"
  using assms by simp

lemma enc_bad:
  assumes "128 \<le> byte b" "DecodeRune (b # src) = (RuneError, 1)"
  shows "encode_string (b # src)
         = bs # CHR ''u'' # CHR ''f'' # CHR ''f'' # CHR ''f'' # CHR ''d'' # encode_string src"
  using assms by (simp add: DecodeRune_take3)

lemma enc_sep:
  assumes "128 \<le> byte b" "DecodeRune (b # src) \<noteq> (RuneError, 1)"
    "fst (DecodeRune (b # src)) = 0x2028 \<or> fst (DecodeRune (b # src)) = 0x2029"
  shows "encode_string (b # src)
         = bs # CHR ''u'' # CHR ''2'' # CHR ''0'' # CHR ''2'' # hex (fst (DecodeRune (b # src)) mod 16)
             # encode_string (drop (snd (DecodeRune (b # src)) - 1) src)"
  using assms by (simp add: DecodeRune_take3)

lemma enc_copy:
  assumes "128 \<le> byte b" "DecodeRune (b # src) \<noteq> (RuneError, 1)"
    "fst (DecodeRune (b # src)) \<noteq> 0x2028" "fst (DecodeRune (b # src)) \<noteq> 0x2029"
  shows "encode_string (b # src)
         = take (snd (DecodeRune (b # src))) (b # src)
             @ encode_string (drop (snd (DecodeRune (b # src)) - 1) src)"
  using assms by (simp add: DecodeRune_take3)

declare encode_string.simps(2) [simp del]
declare scan_string.simps(2) [simp del]
declare unquote.simps(2) [simp del]
declare ToValidUTF8.simps(2) [simp del]
declare ValidString.simps(2) [simp del]
declare dec_nat.simps [simp del]

lemma bs_neq_dq: "bs \<noteq> dq"
  by (simp add: bs_def dq_def)

lemma scan_plain:
  "32 \<le> byte c \<Longrightarrow> c \<noteq> dq \<Longrightarrow> c \<noteq> bs
   \<Longrightarrow> scan_string (c # cs) = map_option (\<lambda>(raw, rest). (c # raw, rest)) (scan_string cs)"
  by (simp add: scan_string.simps(2))

lemma scan_esc:
  "e = CHR ''b'' \<or> e = CHR ''f'' \<or> e = CHR ''n'' \<or> e = CHR ''r'' \<or> e = CHR ''t''
     \<or> e = bs \<or> e = CHR ''/'' \<or> e = dq
   \<Longrightarrow> scan_string (bs # e # cs) = map_option (\<lambda>(raw, rest). (bs # e # raw, rest)) (scan_string cs)"
  by (simp add: scan_string.simps(2) bs_neq_dq)

lemma bs_neq_u: "bs \<noteq> CHR ''u''" "CHR ''u'' \<noteq> bs" "dq \<noteq> CHR ''u''" "CHR ''u'' \<noteq> dq"
  by (simp_all add: bs_def dq_def)

lemma scan_u:
  assumes "hexval h1 \<noteq> None" "hexval h2 \<noteq> None" "hexval h3 \<noteq> None" "hexval h4 \<noteq> None"
  shows "scan_string (bs # CHR ''u'' # h1 # h2 # h3 # h4 # cs)
       = map_option (\<lambda>(raw, rest). (bs # CHR ''u'' # h1 # h2 # h3 # h4 # raw, rest)) (scan_string cs)"
proof -
  have "list_all (\<lambda>h. hexval h \<noteq> None) (take 4 (h1 # h2 # h3 # h4 # cs))"
    using assms by (simp del: not_None_eq)
  then show ?thesis
    by (subst scan_string.simps(2)) (simp add: bs_neq_dq bs_neq_u del: not_None_eq)
qed

lemma scan_string_plain:
  assumes "\<forall>c \<in> set xs. 32 \<le> byte c \<and> c \<noteq> dq \<and> c \<noteq> bs"
  shows "scan_string (xs @ ys) = map_option (\<lambda>(raw, rest). (xs @ raw, rest)) (scan_string ys)"
  using assms
proof (induction xs)
  case Nil
  show ?case by (simp add: option.map_ident split_def)
next
  case (Cons x xs)
  then show ?case
    by (simp add: scan_plain option.map_comp comp_def split_def)
qed

lemma hexval_digits: "hexval (CHR ''0'') \<noteq> None" "hexval (CHR ''2'') \<noteq> None"
  "hexval (CHR ''f'') \<noteq> None" "hexval (CHR ''d'') \<noteq> None"
  by (simp_all add: hexval_def byte_def)

lemma scan_string_encode:
  "scan_string (encode_string p @ dq # rest) = Some (encode_string p, rest)"
proof (induction "length p" arbitrary: p rule: less_induct)
  case less
  show ?case
  proof (cases p)
    case Nil
    then show ?thesis by (simp add: scan_string.simps(2))
  next
    case (Cons b src)
    have IH: "\<And>k. scan_string (encode_string (drop k src) @ dq # rest)
                    = Some (encode_string (drop k src), rest)"
      using less [of "drop k src" for k] Cons by simp
    have IH0: "scan_string (encode_string src @ dq # rest) = Some (encode_string src, rest)"
      using IH [of 0] by simp
    show ?thesis
    proof (cases "byte b < 128")
      case True
      consider "htmlSafe b" | "b = bs \<or> b = dq" | "b = LF" | "b = CR" | "b = TAB"
        | "\<not> htmlSafe b" "b \<noteq> bs" "b \<noteq> dq" "b \<noteq> LF" "b \<noteq> CR" "b \<noteq> TAB"
        by blast
      then show ?thesis
      proof cases
        case 1
        then show ?thesis unfolding Cons
          by (simp add: enc_safe scan_plain htmlSafe_def IH0)
      next
        case 2
        then show ?thesis unfolding Cons
          by (auto simp add: enc_quote scan_esc IH0)
      next
        case 3
        then show ?thesis unfolding Cons by (simp add: enc_LF scan_esc IH0)
      next
        case 4
        then show ?thesis unfolding Cons by (simp add: enc_CR scan_esc IH0)
      next
        case 5
        then show ?thesis unfolding Cons by (simp add: enc_TAB scan_esc IH0)
      next
        case 6
        then show ?thesis unfolding Cons using True
          by (simp add: enc_ctl scan_u hex_is_hex hexval_digits IH0 del: not_None_eq)
      qed
    next
      case False
      then have hi: "128 \<le> byte b" by simp
      show ?thesis
      proof (cases "DecodeRune (b # src) = (RuneError, 1)")
        case True
        then show ?thesis unfolding Cons using hi
          by (simp add: enc_bad scan_u hexval_digits IH0 del: not_None_eq)
      next
        case valid: False
        show ?thesis
        proof (cases "fst (DecodeRune (b # src)) = 0x2028 \<or> fst (DecodeRune (b # src)) = 0x2029")
          case True
          then show ?thesis unfolding Cons using hi valid
            by (simp add: enc_sep scan_u hexval_digits hex_is_hex IH del: not_None_eq)
        next
          case False
          have "\<forall>c \<in> set (take (snd (DecodeRune (b # src))) (b # src)). 32 \<le> byte c \<and> c \<noteq> dq \<and> c \<noteq> bs"
            using DecodeRune_high_bytes [OF valid hi] byte_consts by fastforce
          then show ?thesis unfolding Cons using hi valid False
            by (simp add: enc_copy scan_string_plain IH)
        qed
      qed
    qed
  qed
qed

lemma unq_plain:
  "32 \<le> byte c \<Longrightarrow> byte c < 128 \<Longrightarrow> c \<noteq> dq \<Longrightarrow> c \<noteq> bs
   \<Longrightarrow> unquote (c # cs) = map_option ((#) c) (unquote cs)"
  by (subst unquote.simps(2)) simp

lemma unq_same: "e = dq \<or> e = bs \<Longrightarrow> unquote (bs # e # cs) = map_option ((#) e) (unquote cs)"
  by (subst unquote.simps(2)) auto

lemma unq_n: "unquote (bs # CHR ''n'' # cs) = map_option ((#) LF) (unquote cs)"
  by (subst unquote.simps(2)) (simp add: dq_def bs_def)

lemma unq_r: "unquote (bs # CHR ''r'' # cs) = map_option ((#) CR) (unquote cs)"
  by (subst unquote.simps(2)) (simp add: dq_def bs_def)

lemma unq_t: "unquote (bs # CHR ''t'' # cs) = map_option ((#) TAB) (unquote cs)"
  by (subst unquote.simps(2)) (simp add: dq_def bs_def)

lemma unq_u:
  assumes "getu4 (bs # CHR ''u'' # h1 # h2 # h3 # h4 # cs) = Some rr" "\<not> IsSurrogate rr"
  shows "unquote (bs # CHR ''u'' # h1 # h2 # h3 # h4 # cs) = map_option ((@) (EncodeRune rr)) (unquote cs)"
  by (subst unquote.simps(2)) (simp add: assms bs_neq_u)

lemma unq_high:
  assumes "128 \<le> byte c"
  shows "unquote (c # cs) = map_option ((@) (EncodeRune (fst (DecodeRune (c # cs)))))
             (unquote (drop (snd (DecodeRune (c # cs)) - 1) cs))"
  using assms byte_consts by (subst unquote.simps(2)) auto

lemma getu4_00:
  assumes "n < 256"
  shows "getu4 (bs # CHR ''u'' # CHR ''0'' # CHR ''0'' # hex (n div 16) # hex (n mod 16) # cs) = Some n"
proof -
  have a: "hexval (hex (n div 16)) = Some (n div 16)" using assms by (intro hexval_hex) simp
  have b: "hexval (hex (n mod 16)) = Some (n mod 16)" by (intro hexval_hex) simp
  have z: "hexval (CHR ''0'') = Some 0" by (simp add: hexval_def byte_def)
  show ?thesis by (simp add: getu4_def a b z)
qed

lemma getu4_fffd: "getu4 (bs # CHR ''u'' # CHR ''f'' # CHR ''f'' # CHR ''f'' # CHR ''d'' # cs) = Some RuneError"
  by (simp add: getu4_def hexval_def byte_def RuneError_def)

lemma getu4_202:
  assumes "r = 0x2028 \<or> r = 0x2029"
  shows "getu4 (bs # CHR ''u'' # CHR ''2'' # CHR ''0'' # CHR ''2'' # hex (r mod 16) # cs) = Some r"
proof -
  have b: "hexval (hex (r mod 16)) = Some (r mod 16)" by (intro hexval_hex) simp
  have z: "hexval (CHR ''0'') = Some 0" "hexval (CHR ''2'') = Some 2" by (simp_all add: hexval_def byte_def)
  show ?thesis using assms by (auto simp add: getu4_def b z)
qed

lemma tv_ascii: "byte b < 128 \<Longrightarrow> ToValidUTF8 (b # src) = b # ToValidUTF8 src"
  by (subst ToValidUTF8.simps(2)) (simp add: DecodeRune_ascii RuneError_def)

lemma tv_bad: "DecodeRune (b # src) = (RuneError, 1) \<Longrightarrow> ToValidUTF8 (b # src) = EncodeRune RuneError @ ToValidUTF8 src"
  by (subst ToValidUTF8.simps(2)) simp

lemma tv_ok: "DecodeRune (b # src) \<noteq> (RuneError, 1) \<Longrightarrow> ToValidUTF8 (b # src)
    = take (snd (DecodeRune (b # src))) (b # src) @ ToValidUTF8 (drop (snd (DecodeRune (b # src)) - 1) src)"
  by (subst ToValidUTF8.simps(2)) simp

lemma not_surrogate_small: "r < 256 \<Longrightarrow> \<not> IsSurrogate r"
  by (simp add: IsSurrogate_def)

lemma EncodeRune_ascii: "byte b < 128 \<Longrightarrow> EncodeRune (byte b) = [b]"
  by (simp add: EncodeRune_def chr_byte)

lemma unquote_encode: "unquote (encode_string p) = Some (ToValidUTF8 p)"
proof (induction "length p" arbitrary: p rule: less_induct)
  case less
  show ?case
  proof (cases p)
    case Nil
    then show ?thesis by simp
  next
    case (Cons b src)
    have IH: "\<And>k. unquote (encode_string (drop k src)) = Some (ToValidUTF8 (drop k src))"
      using less [of "drop k src" for k] Cons by simp
    have IH0: "unquote (encode_string src) = Some (ToValidUTF8 src)"
      using IH [of 0] by simp
    show ?thesis
    proof (cases "byte b < 128")
      case True
      consider "htmlSafe b" | "b = bs \<or> b = dq" | "b = LF" | "b = CR" | "b = TAB"
        | "\<not> htmlSafe b" "b \<noteq> bs" "b \<noteq> dq" "b \<noteq> LF" "b \<noteq> CR" "b \<noteq> TAB"
        by blast
      then show ?thesis
      proof cases
        case 1
        then show ?thesis unfolding Cons
          by (simp add: enc_safe unq_plain htmlSafe_def IH0 tv_ascii)
      next
        case 2
        then show ?thesis unfolding Cons using True
          by (auto simp add: enc_quote unq_same IH0 tv_ascii)
      next
        case 3
        then show ?thesis unfolding Cons using True by (simp add: enc_LF unq_n IH0 tv_ascii)
      next
        case 4
        then show ?thesis unfolding Cons using True by (simp add: enc_CR unq_r IH0 tv_ascii)
      next
        case 5
        then show ?thesis unfolding Cons using True by (simp add: enc_TAB unq_t IH0 tv_ascii)
      next
        case 6
        have g: "getu4 (bs # CHR ''u'' # CHR ''0'' # CHR ''0'' # hex (byte b div 16) # hex (byte b mod 16)
                   # encode_string src) = Some (byte b)"
          by (rule getu4_00) (rule byte_lt_256)
        have ns: "\<not> IsSurrogate (byte b)" using True by (simp add: IsSurrogate_def)
        show ?thesis unfolding Cons using True 6
          by (simp add: enc_ctl unq_u [OF g ns] IH0 tv_ascii EncodeRune_ascii)
      qed
    next
      case False
      then have hi: "128 \<le> byte b" by simp
      show ?thesis
      proof (cases "DecodeRune (b # src) = (RuneError, 1)")
        case True
        have ns: "\<not> IsSurrogate RuneError" by (simp add: IsSurrogate_def RuneError_def)
        show ?thesis unfolding Cons using hi True
          by (simp add: enc_bad unq_u [OF getu4_fffd ns] IH0 tv_bad)
      next
        case valid: False
        let ?r = "fst (DecodeRune (b # src))"
        let ?n = "snd (DecodeRune (b # src))"
        have sz: "1 \<le> ?n \<and> ?n \<le> length (b # src)" using DecodeRune_size [of b src] by simp
        have ed: "EncodeRune ?r = take ?n (b # src)" by (rule Encode_Decode [OF valid])
        show ?thesis
        proof (cases "?r = 0x2028 \<or> ?r = 0x2029")
          case True
          have ns: "\<not> IsSurrogate ?r" using True by (auto simp add: IsSurrogate_def)
          show ?thesis unfolding Cons using hi valid True
            by (simp add: enc_sep unq_u [OF getu4_202 [OF True] ns] IH tv_ok ed)
        next
          case False
          have dr: "DecodeRune (take ?n (b # src) @ encode_string (drop (?n - 1) src)) = DecodeRune (b # src)"
            by (rule DecodeRune_append [OF valid])
          obtain m where m: "?n = Suc m" using sz by (cases ?n) simp_all
          have tk: "take ?n (b # src) = b # take m src" by (simp add: m)
          have len: "m \<le> length src" using sz m by simp
          have "unquote (b # take m src @ encode_string (drop m src))
                = map_option ((@) (EncodeRune ?r)) (unquote (drop m (take m src @ encode_string (drop m src))))"
            using unq_high [OF hi, of "take m src @ encode_string (drop m src)"] dr
            by (simp add: tk m)
          also have "drop m (take m src @ encode_string (drop m src)) = encode_string (drop m src)"
            using len by simp
          finally show ?thesis unfolding Cons using hi valid False
            by (simp add: enc_copy tk m IH tv_ok ed)
        qed
      qed
    qed
  qed
qed

lemma ToValidUTF8_valid: "ValidString p \<Longrightarrow> ToValidUTF8 p = p"
proof (induction "length p" arbitrary: p rule: less_induct)
  case less
  show ?case
  proof (cases p)
    case Nil
    then show ?thesis by simp
  next
    case (Cons b src)
    let ?n = "snd (DecodeRune (b # src))"
    from less(2) have valid: "DecodeRune (b # src) \<noteq> (RuneError, 1)"
      and rest: "ValidString (drop (?n - 1) src)"
      unfolding Cons by (subst (asm) ValidString.simps(2), simp split: if_splits)+
    have sz: "1 \<le> ?n" using DecodeRune_size [of b src] by simp
    then obtain m where m: "?n = Suc m" by (cases ?n) simp_all
    have "ToValidUTF8 (drop m src) = drop m src"
      using less(1) [of "drop m src"] rest Cons by (simp add: m)
    then show ?thesis unfolding Cons using valid by (simp add: tv_ok m)
  qed
qed

lemma DecodeRune_RuneError_bytes: "DecodeRune (EncodeRune RuneError @ t) = (RuneError, 3)"
  by (simp add: EncodeRune_def RuneError_def MaxRune_def IsSurrogate_def DecodeRune_def chr_def byte_def cont_def)

lemma ValidString_ToValidUTF8: "ValidString (ToValidUTF8 p)"
proof (induction "length p" arbitrary: p rule: less_induct)
  case less
  show ?case
  proof (cases p)
    case Nil
    then show ?thesis by simp
  next
    case (Cons b src)
    let ?n = "snd (DecodeRune (b # src))"
    have IH: "\<And>k. ValidString (ToValidUTF8 (drop k src))"
      using less [of "drop k src" for k] Cons by simp
    have IH0: "ValidString (ToValidUTF8 src)" using IH [of 0] by simp
    show ?thesis
    proof (cases "DecodeRune (b # src) = (RuneError, 1)")
      case True
      have e: "EncodeRune RuneError = [chr 0xEF, chr 0xBF, chr 0xBD]"
        by (simp add: EncodeRune_def RuneError_def MaxRune_def IsSurrogate_def)
      have "ValidString (chr 0xEF # chr 0xBF # chr 0xBD # ToValidUTF8 src)"
        using DecodeRune_RuneError_bytes [of "ToValidUTF8 src"] IH0
        by (subst ValidString.simps(2)) (simp add: e)
      then show ?thesis unfolding Cons using True by (simp add: tv_bad e)
    next
      case valid: False
      have sz: "1 \<le> ?n \<and> ?n \<le> length (b # src)" using DecodeRune_size [of b src] by simp
      then obtain m where m: "?n = Suc m" by (cases ?n) simp_all
      have len: "m \<le> length src" using sz m by simp
      have dr: "DecodeRune (b # take m src @ ToValidUTF8 (drop m src)) = DecodeRune (b # src)"
        using DecodeRune_append [OF valid, of "ToValidUTF8 (drop m src)"] by (simp add: m)
      have "ValidString (b # take m src @ ToValidUTF8 (drop m src))"
        using valid IH [of m] len
        by (subst ValidString.simps(2)) (simp add: dr m)
      then show ?thesis unfolding Cons using valid by (simp add: tv_ok m)
    qed
  qed
qed

lemma ToValidUTF8_idem: "ToValidUTF8 (ToValidUTF8 p) = ToValidUTF8 p"
  by (rule ToValidUTF8_valid) (rule ValidString_ToValidUTF8)

lemma isDigit_digit: "n < 10 \<Longrightarrow> isDigit (digit n)"
  by (simp add: isDigit_def digit_def chr_def byte_def)

lemma byte_digit: "n < 10 \<Longrightarrow> byte (digit n) = 48 + n"
  by (simp add: digit_def chr_def byte_def)

lemma dec_nat_digits: "list_all isDigit (dec_nat n)"
proof (induction n rule: dec_nat.induct)
  case (1 n)
  show ?case
  proof (cases "n < 10")
    case True
    then show ?thesis by (subst dec_nat.simps) (simp add: isDigit_digit)
  next
    case False
    then show ?thesis using 1 by (subst dec_nat.simps) (simp add: isDigit_digit)
  qed
qed

lemma dec_nat_nonempty: "dec_nat n \<noteq> []"
  by (subst dec_nat.simps) simp

lemma dec_nat_value: "foldl (\<lambda>a c. a * 10 + (byte c - 48)) 0 (dec_nat n) = n"
proof (induction n rule: dec_nat.induct)
  case (1 n)
  show ?case
  proof (cases "n < 10")
    case True
    then show ?thesis by (subst dec_nat.simps) (simp add: byte_digit)
  next
    case False
    then show ?thesis using 1 by (subst dec_nat.simps) (simp add: byte_digit)
  qed
qed

lemma dec_nat_hd: "0 < n \<Longrightarrow> hd (dec_nat n) \<noteq> CHR ''0''"
proof (induction n rule: dec_nat.induct)
  case (1 n)
  show ?case
  proof (cases "n < 10")
    case True
    then have "byte (hd (dec_nat n)) = 48 + n" by (subst dec_nat.simps) (simp add: byte_digit)
    then show ?thesis using 1(2) by (auto simp: byte_def)
  next
    case False
    then have "hd (dec_nat n) = hd (dec_nat (n div 10))"
      by (subst dec_nat.simps) (simp add: dec_nat_nonempty)
    then show ?thesis using 1(1) False by simp
  qed
qed

lemma dec_nat_zero: "dec_nat 0 = ''0''"
  by (subst dec_nat.simps) (simp add: digit_def chr_def char_of_eq_iff take_bit_eq_mod)

lemma takeWhile_dec_nat:
  assumes "stops rest"
  shows "takeWhile isDigit (dec_nat n @ rest) = dec_nat n"
    and "dropWhile isDigit (dec_nat n @ rest) = rest"
proof -
  have d: "\<forall>c \<in> set (dec_nat n). isDigit c" using dec_nat_digits [of n] by (simp add: list_all_iff)
  have r: "takeWhile isDigit rest = []" "dropWhile isDigit rest = rest"
    using assms by (cases rest; simp add: stops_def)+
  show "takeWhile isDigit (dec_nat n @ rest) = dec_nat n"
    using d r by (simp add: takeWhile_append2)
  show "dropWhile isDigit (dec_nat n @ rest) = rest"
    using d r by (simp add: dropWhile_append2)
qed

lemma scan_frac_stops: "stops rest \<Longrightarrow> scan_frac rest = Some ([], rest)"
  by (cases rest) (simp_all add: scan_frac_def stops_def)

lemma scan_exp_stops: "stops rest \<Longrightarrow> scan_exp rest = Some ([], rest)"
  by (cases rest) (simp_all add: scan_exp_def stops_def)

lemma isDigit_not_sign: "isDigit d \<Longrightarrow> d \<noteq> CHR ''-'' \<and> d \<noteq> CHR ''+''"
  by (auto simp: isDigit_def byte_def)

lemma scan_number_digit:
  assumes "isDigit d"
  shows "scan_number (d # t) =
     (case scan_frac (drop (length (if d = CHR ''0'' then [d] else takeWhile isDigit (d # t))) (d # t)) of
        None \<Rightarrow> None
      | Some (fr, s2) \<Rightarrow>
          (case scan_exp s2 of
             None \<Rightarrow> None
           | Some (ex, s3) \<Rightarrow>
               Some ((if d = CHR ''0'' then [d] else takeWhile isDigit (d # t)) @ fr @ ex, s3)))"
  using assms isDigit_not_sign [OF assms]
  by (auto simp add: scan_number_def Let_def split: option.splits)

lemma scan_number_minus:
  assumes "isDigit d"
  shows "scan_number (CHR ''-'' # d # t)
         = map_option (\<lambda>(lit, rest). (CHR ''-'' # lit, rest)) (scan_number (d # t))"
  using assms isDigit_not_sign [OF assms]
  by (auto simp add: scan_number_def Let_def split: option.splits)

lemma scan_number_dec_nat:
  assumes "stops rest"
  shows "scan_number (dec_nat n @ rest) = Some (dec_nat n, rest)"
proof -
  obtain d t where dt: "dec_nat n = d # t" using dec_nat_nonempty [of n] by (cases "dec_nat n") auto
  have dd: "isDigit d" using dec_nat_digits [of n] dt by simp
  have ip: "(if d = CHR ''0'' then [d] else takeWhile isDigit (d # t @ rest)) = d # t"
  proof (cases "d = CHR ''0''")
    case True
    then have "n = 0" using dec_nat_hd [of n] dt by auto
    then show ?thesis using True dt by (simp add: dec_nat_zero)
  next
    case False
    then show ?thesis using takeWhile_dec_nat(1) [OF assms, of n] by (simp add: dt)
  qed
  have dr: "drop (length (d # t)) (d # t @ rest) = rest" by simp
  have "scan_number (d # t @ rest) = Some (d # t, rest)"
    unfolding scan_number_digit [OF dd] ip dr
    by (simp add: scan_frac_stops [OF assms] scan_exp_stops [OF assms])
  then show ?thesis by (simp add: dt)
qed

lemma scan_number_FormatInt:
  assumes "stops rest"
  shows "scan_number (FormatInt i @ rest) = Some (FormatInt i, rest)"
proof (cases "i < 0")
  case True
  obtain d t where dt: "dec_nat (nat (- i)) = d # t"
    using dec_nat_nonempty [of "nat (- i)"] by (cases "dec_nat (nat (- i))") auto
  have dd: "isDigit d" using dec_nat_digits [of "nat (- i)"] dt by simp
  have "scan_number (d # t @ rest) = Some (d # t, rest)"
    using scan_number_dec_nat [OF assms, of "nat (- i)"] by (simp add: dt)
  then show ?thesis using True
    by (simp add: FormatInt_def dt scan_number_minus [OF dd])
next
  case False
  then show ?thesis using scan_number_dec_nat [OF assms] by (simp add: FormatInt_def)
qed

lemma ParseInt_dec_nat:
  "ParseInt (dec_nat n) = (if int n < 2 ^ 63 then Some (int n) else None)"
proof -
  obtain d t where dt: "dec_nat n = d # t" using dec_nat_nonempty [of n] by (cases "dec_nat n") auto
  have dd: "isDigit d" using dec_nat_digits [of n] dt by simp
  have sg: "(case dec_nat n of [] \<Rightarrow> [] | g # _ \<Rightarrow> if g = CHR ''+'' \<or> g = CHR ''-'' then [g] else []) = []"
    using isDigit_not_sign [OF dd] by (simp add: dt)
  show ?thesis
    unfolding ParseInt_def sg
    by (simp add: Let_def dec_nat_nonempty dec_nat_digits dec_nat_value)
qed

lemma ParseInt_neg_dec_nat:
  "ParseInt (CHR ''-'' # dec_nat n) = (if int n \<le> 2 ^ 63 then Some (- int n) else None)"
  unfolding ParseInt_def
  by (simp add: Let_def dec_nat_nonempty dec_nat_digits dec_nat_value)

lemma ParseInt_FormatInt:
  assumes "- (2 ^ 63) \<le> i" "i < 2 ^ 63"
  shows "ParseInt (FormatInt i) = Some i"
proof (cases "i < 0")
  case True
  then show ?thesis using assms ParseInt_neg_dec_nat [of "nat (- i)"]
    by (simp add: FormatInt_def)
next
  case False
  then show ?thesis using assms ParseInt_dec_nat [of "nat i"]
    by (simp add: FormatInt_def)
qed

lemma ParseInt_sint: "ParseInt (FormatInt (sint (w :: 64 word))) = Some (sint w)"
proof -
  have "- (2 ^ 63) \<le> sint w" "sint w < 2 ^ 63"
    using sint_ge [of w] sint_lt [of w] by simp_all
  then show ?thesis by (rule ParseInt_FormatInt)
qed

lemma skip_ws_simps:
  "skip_ws (LF # s) = skip_ws s" "skip_ws (CHR '' '' # s) = skip_ws s"
  "skip_ws (dq # s) = dq # s" "skip_ws (CHR 0x7B # s) = CHR 0x7B # s"
  "skip_ws (CHR 0x7D # s) = CHR 0x7D # s" "skip_ws (CHR '':'' # s) = CHR '':'' # s"
  "skip_ws (CHR '','' # s) = CHR '','' # s" "skip_ws (CHR '']'' # s) = CHR '']'' # s"
  "skip_ws [] = []"
  by (simp_all add: skip_ws_def isSpace_def LF_def dq_def TAB_def CR_def)

lemma dq_neqs: "dq \<noteq> CHR 0x7B" "dq \<noteq> CHR ''[''" "dq \<noteq> CHR 0x7D" "dq \<noteq> CHR '']''"
  by (simp_all add: dq_def)

lemma scan_dq: "scan_string (dq # cs) = Some ([], cs)"
  by (simp add: scan_string.simps(2))

lemma letter_plain:
  assumes "c \<in> set ''pathsize''"
  shows "32 \<le> byte c" "c \<noteq> dq" "c \<noteq> bs" "byte c < 128"
  using assms by (auto simp add: byte_def dq_def bs_def)

lemma scan_key_path: "scan_string (CHR ''p'' # CHR ''a'' # CHR ''t'' # CHR ''h'' # dq # cs) = Some (''path'', cs)"
  by (simp add: scan_plain scan_dq letter_plain)

lemma scan_key_size: "scan_string (CHR ''s'' # CHR ''i'' # CHR ''z'' # CHR ''e'' # dq # cs) = Some (''size'', cs)"
  by (simp add: scan_plain scan_dq letter_plain)

lemma unquote_keys: "unquote ''path'' = Some ''path''" "unquote ''size'' = Some ''size''"
  by (simp_all add: unq_plain letter_plain)

lemma parse_value_string:
  "parse_value (Suc n) (dq # encode_string p @ dq # rest) = Some (JStr (ToValidUTF8 p), rest)"
  by (simp add: dq_neqs scan_string_encode unquote_encode)

lemma FormatInt_head:
  obtains c t where "FormatInt i = c # t" "c = CHR ''-'' \<or> isDigit c"
  proof (cases "i < 0")
  case True
  then show ?thesis using that by (simp add: FormatInt_def)
next
  case False
  obtain d t where dt: "dec_nat (nat i) = d # t"
    using dec_nat_nonempty [of "nat i"] by (cases "dec_nat (nat i)") auto
  have "isDigit d" using dec_nat_digits [of "nat i"] dt by simp
  then show ?thesis using that False dt by (simp add: FormatInt_def)
qed

lemma parse_value_number:
  assumes "stops rest"
  shows "parse_value (Suc n) (FormatInt i @ rest) = Some (JNum (FormatInt i), rest)"
proof -
  obtain c t where ct: "FormatInt i = c # t" and c: "c = CHR ''-'' \<or> isDigit c"
    by (rule FormatInt_head)
  have ne: "c \<noteq> CHR 0x7B" "c \<noteq> CHR ''[''" "c \<noteq> dq"
    using c by (auto simp: isDigit_def byte_def dq_def)
  have "scan_number (c # t @ rest) = Some (c # t, rest)"
    using scan_number_FormatInt [OF assms, of i] by (simp add: ct)
  then have "parse_value (Suc n) (c # t @ rest) = Some (JNum (c # t), rest)"
    using ne c by simp
  then show ?thesis by (simp add: ct)
qed

lemma skip_ws_FormatInt: "skip_ws (FormatInt i @ rest) = FormatInt i @ rest"
proof -
  obtain c t where ct: "FormatInt i = c # t" and c: "c = CHR ''-'' \<or> isDigit c"
    by (rule FormatInt_head)
  have "\<not> isSpace c" using c by (auto simp: isSpace_def isDigit_def byte_def LF_def CR_def TAB_def)
  then show ?thesis by (simp add: ct skip_ws_def)
qed

lemma stops_LF: "stops (LF # s)"
  by (simp add: stops_def isDigit_def byte_def LF_def)

lemma parse_members_size:
  "parse_members (Suc (Suc n))
     (dq # CHR ''s'' # CHR ''i'' # CHR ''z'' # CHR ''e'' # dq # CHR '':'' # CHR '' ''
        # FormatInt i @ LF # CHR '' '' # CHR '' '' # CHR 0x7D # rest)
   = Some ([(''size'', JNum (FormatInt i))], rest)"
proof -
  have v: "parse_value (Suc n) (FormatInt i @ LF # CHR '' '' # CHR '' '' # CHR 0x7D # rest)
           = Some (JNum (FormatInt i), LF # CHR '' '' # CHR '' '' # CHR 0x7D # rest)"
    by (rule parse_value_number) (rule stops_LF)
  show ?thesis
    by (subst parse_members.simps(2))
       (simp add: scan_key_size unquote_keys skip_ws_simps skip_ws_FormatInt v
          del: parse_value.simps parse_members.simps)
qed

lemma parse_members_path:
  "parse_members (Suc (Suc (Suc n)))
     (dq # CHR ''p'' # CHR ''a'' # CHR ''t'' # CHR ''h'' # dq # CHR '':'' # CHR '' ''
        # dq # encode_string p @ dq # CHR '','' # LF # CHR '' '' # CHR '' '' # CHR '' '' # CHR '' ''
        # dq # CHR ''s'' # CHR ''i'' # CHR ''z'' # CHR ''e'' # dq # CHR '':'' # CHR '' ''
        # FormatInt i @ LF # CHR '' '' # CHR '' '' # CHR 0x7D # rest)
   = Some ([(''path'', JStr (ToValidUTF8 p)), (''size'', JNum (FormatInt i))], rest)"
proof -
  let ?m = "dq # CHR ''s'' # CHR ''i'' # CHR ''z'' # CHR ''e'' # dq # CHR '':'' # CHR '' ''
        # FormatInt i @ LF # CHR '' '' # CHR '' '' # CHR 0x7D # rest"
  have v: "parse_value (Suc (Suc n))
      (dq # encode_string p @ dq # CHR '','' # LF # CHR '' '' # CHR '' '' # CHR '' '' # CHR '' '' # ?m)
       = Some (JStr (ToValidUTF8 p), CHR '','' # LF # CHR '' '' # CHR '' '' # CHR '' '' # CHR '' '' # ?m)"
    by (rule parse_value_string)
  show ?thesis
    by (subst parse_members.simps(2))
       (simp add: scan_key_path unquote_keys skip_ws_simps v parse_members_size
          del: parse_value.simps parse_members.simps)
qed

lemma encode_record_cons:
  "encode_record r @ rest = CHR '' '' # CHR '' '' # record_body r rest"
  by (simp add: encode_record_def record_body_def)

lemma skip_ws_record: "skip_ws (encode_record r @ rest) = record_body r rest"
  by (simp add: encode_record_def record_body_def skip_ws_simps)

lemma parse_value_record:
  "parse_value (Suc (Suc (Suc (Suc n)))) (record_body r rest) = Some (jrec r, rest)"
  unfolding record_body_def
  by (subst parse_value.simps(2))
     (simp add: skip_ws_simps dq_neqs parse_members_path jrec_def
        del: parse_value.simps parse_members.simps)

lemma length_encode_record: "4 \<le> length (encode_record r)"
  by (simp add: encode_record_def)

lemma length_encode_records: "rs \<noteq> [] \<Longrightarrow> length rs + 4 \<le> length (encode_records rs)"
proof (induction rs rule: list_nonempty_induct)
  case (single r)
  then show ?case using length_encode_record [of r] by simp
next
  case (cons r rs)
  obtain r' rs' where rs: "rs = r' # rs'" using cons(1) by (cases rs) auto
  show ?case using cons(2) length_encode_record [of r] by (simp add: rs)
qed

lemma encode_records_cons:
  "rs \<noteq> [] \<Longrightarrow> encode_records (r # rs) = encode_record r @ CHR '','' # LF # encode_records rs"
  by (cases rs) simp_all

lemma skip_ws_records:
  assumes "rs \<noteq> []"
  shows "\<exists>t. skip_ws (encode_records rs @ rest) = CHR 0x7B # t"
proof -
  obtain r rs' where rs: "rs = r # rs'" using assms by (cases rs) auto
  have "\<exists>X. encode_records (r # rs') @ rest = encode_record r @ X"
    by (cases rs') simp_all
  then obtain X where "encode_records rs @ rest = encode_record r @ X"
    unfolding rs by blast
  then have "skip_ws (encode_records rs @ rest) = record_body r X"
    by (simp add: skip_ws_record)
  then show ?thesis by (simp add: record_body_def)
qed

lemma parse_elems_records:
  "rs \<noteq> [] \<Longrightarrow>
   parse_elems (Suc (Suc (Suc (Suc (length rs + n))))) (skip_ws (encode_records rs @ CHR '']'' # rest))
   = Some (map jrec rs, rest)"
proof (induction rs arbitrary: n rule: list_nonempty_induct)
  case (single r)
  have e: "encode_records [r] @ CHR '']'' # rest = encode_record r @ LF # CHR '']'' # rest"
    by simp
  have v: "parse_value (Suc (Suc (Suc (Suc n)))) (record_body r (LF # CHR '']'' # rest))
           = Some (jrec r, LF # CHR '']'' # rest)"
    by (rule parse_value_record)
  have f: "Suc (Suc (Suc (Suc (length [r] + n)))) = Suc (Suc (Suc (Suc (Suc n))))"
    by simp
  show ?case
    unfolding e f skip_ws_record
    by (subst parse_elems.simps(2))
       (simp add: v skip_ws_simps del: parse_value.simps parse_elems.simps)
next
  case (cons r rs)
  let ?tail = "CHR '','' # LF # encode_records rs @ CHR '']'' # rest"
  have e: "encode_records (r # rs) @ CHR '']'' # rest = encode_record r @ ?tail"
    by (simp add: encode_records_cons [OF cons(1)])
  have v: "parse_value (Suc (Suc (Suc (Suc (length rs + n))))) (record_body r ?tail)
           = Some (jrec r, ?tail)"
    by (rule parse_value_record)
  have IH: "parse_elems (Suc (Suc (Suc (Suc (length rs + n)))))
              (skip_ws (encode_records rs @ CHR '']'' # rest)) = Some (map jrec rs, rest)"
    by (rule cons(2))
  have f: "Suc (Suc (Suc (Suc (length (r # rs) + n)))) = Suc (Suc (Suc (Suc (Suc (length rs + n)))))"
    by simp
  show ?case
    unfolding e f skip_ws_record
    by (subst parse_elems.simps(2))
       (simp add: v skip_ws_simps IH del: parse_value.simps parse_elems.simps)
qed

lemma equalFold_keys:
  "equalFold ''path'' ''path''" "\<not> equalFold ''path'' ''size''" "equalFold ''size'' ''size''"
  by (simp_all add: upper_def byte_def)

lemma decode_members_pair:
  "decode_members [(''path'', JStr p), (''size'', JNum (FormatInt (sint (w :: 64 word))))] r0
   = Inr (r0\<lparr>Path := p, Size := w\<rparr>)"
  by (simp add: equalFold_keys ParseInt_sint del: equalFold.simps)

lemma decode_record_jrec: "decode_record (jrec r) = Inr (coerce r)"
  unfolding decode_record_def jrec_def coerce_def
  by (simp add: decode_members_pair del: decode_members.simps)

lemma decode_records_jrec: "decode_records (map jrec rs) = Inr (map coerce rs)"
  by (induction rs) (simp_all add: decode_record_jrec)

lemma Unmarshal_null: "Unmarshal ''null'' = Inr []"
  by (simp add: Unmarshal_def skip_ws_def isSpace_def LF_def CR_def TAB_def dq_def isDigit_def byte_def)

lemma Unmarshal_records:
  assumes "rs \<noteq> []"
  shows "Unmarshal (CHR ''['' # LF # encode_records rs @ '']'') = Inr (map coerce rs)"
proof -
  let ?data = "CHR ''['' # LF # encode_records rs @ '']''"
  obtain n where n: "length (encode_records rs) = length rs + 4 + n"
    using length_encode_records [OF assms] le_Suc_ex by blast
  have len: "length ?data = Suc (Suc (Suc (Suc (length rs + (n + 3)))))"
    by (simp add: n)
  obtain t where kt: "skip_ws (encode_records rs @ '']'') = CHR 0x7B # t"
    using skip_ws_records [OF assms] by blast
  have pe: "parse_elems (Suc (Suc (Suc (Suc (length rs + (n + 3))))))
              (skip_ws (encode_records rs @ CHR '']'' # [])) = Some (map jrec rs, [])"
    by (rule parse_elems_records [OF assms])
  have sk: "skip_ws ?data = ?data" by (simp add: skip_ws_def isSpace_def LF_def CR_def TAB_def)
  have "parse_value (Suc (length ?data)) (?data) = Some (JArr (map jrec rs), [])"
    unfolding len
    by (subst parse_value.simps(2))
       (use pe in \<open>simp add: skip_ws_simps kt del: parse_value.simps parse_elems.simps\<close>)
  then show ?thesis
    unfolding Unmarshal_def sk
    by (simp add: skip_ws_simps decode_records_jrec del: parse_value.simps)
qed

lemma Unmarshal_MarshalIndent:
  "MarshalIndent rs = Inr data \<Longrightarrow> Unmarshal data = Inr (map coerce rs)"
  using Unmarshal_records [of rs] Unmarshal_null
  by (auto simp add: MarshalIndent_def split: if_splits)

section \<open>Lemmas on appending to the stored ledger\<close>

lemma MarshalIndent_Inr: "MarshalIndent rs = Inr (projr (MarshalIndent rs))"
  by (simp add: MarshalIndent_def)

lemma Unmarshal_projr: "Unmarshal (projr (MarshalIndent rs)) = Inr (map coerce rs)"
  by (rule Unmarshal_MarshalIndent) (rule MarshalIndent_Inr)

lemma coerce_valid: "ValidString (Path r) \<Longrightarrow> coerce r = r"
  by (simp add: coerce_def ToValidUTF8_valid)

lemma coerce_idem: "coerce (coerce r) = coerce r"
  by (simp add: coerce_def ToValidUTF8_idem)

lemma Size_coerce: "Size (coerce r) = Size r"
  by (simp add: coerce_def)

lemma map_coerce_valid: "\<forall>r \<in> set rs. ValidString (Path r) \<Longrightarrow> map coerce rs = rs"
  by (induction rs) (simp_all add: coerce_valid)

lemma existing_data:
  assumes "stat_fault fs s = None" "read_fault fs s = None" "ledger s fs = Some l"
  shows "readExisting s fs = Inr l"
  using assms
  by (auto simp add: readExisting_def Stat_def ReadFile_def ledger_def split: option.splits sum.splits)

lemma writeUpdated_stored:
  assumes "write_fault fs s = None"
  shows "writeUpdated rs s fs = (Stored, fs\<lparr>files := (files fs)(s \<mapsto> projr (MarshalIndent rs))\<rparr>)"
  by (subst writeUpdated_def, subst MarshalIndent_Inr)
     (simp add: WriteFile_def WriteFile_upto_def assms MarshalIndent_def)

lemma appendRecord_stored:
  assumes "stat_fault fs s = None" "read_fault fs s = None" "write_fault fs s = None"
    and "ledger s fs = Some l"
  shows "appendRecord r s fs
         = (Stored, fs\<lparr>files := (files fs)(s \<mapsto> projr (MarshalIndent (l @ [r])))\<rparr>)"
  by (simp add: appendRecord_def existing_data [OF assms(1,2,4)] writeUpdated_stored [OF assms(3)])

lemma ledger_written:
  "ledger s (fs\<lparr>files := (files fs)(s \<mapsto> projr (MarshalIndent rs))\<rparr>) = Some (map coerce rs)"
  by (simp add: ledger_def Unmarshal_projr)

lemma byte_chr: "n < 256 \<Longrightarrow> byte (chr n) = n"
  by (simp add: byte_def chr_def)

lemma mod64_le: "(n::nat) mod 64 \<le> 63"
  using mod_less_divisor [of 64 n] by linarith

lemma wellformed_two:
  assumes "194 \<le> a" "a < 224" "128 \<le> b" "b \<le> 191"
  shows "DecodeRune (chr a # chr b # t) \<noteq> (RuneError, 1) \<and> snd (DecodeRune (chr a # chr b # t)) = 2"
  using assms by (simp add: DecodeRune_two byte_chr cont_def RuneError_def)

lemma wellformed_three:
  assumes "224 \<le> a" "a < 240" "128 \<le> b" "b \<le> 191" "128 \<le> c" "c \<le> 191"
    "a = 224 \<longrightarrow> 160 \<le> b" "a = 237 \<longrightarrow> b \<le> 159"
  shows "DecodeRune (chr a # chr b # chr c # t) \<noteq> (RuneError, 1)
         \<and> snd (DecodeRune (chr a # chr b # chr c # t)) = 3"
  using assms by (simp add: DecodeRune_three byte_chr cont_def RuneError_def)

lemma wellformed_four:
  assumes "240 \<le> a" "a \<le> 244" "128 \<le> b" "b \<le> 191" "128 \<le> c" "c \<le> 191" "128 \<le> d" "d \<le> 191"
    "a = 240 \<longrightarrow> 144 \<le> b" "a = 244 \<longrightarrow> b \<le> 143"
  shows "DecodeRune (chr a # chr b # chr c # chr d # t) \<noteq> (RuneError, 1)
         \<and> snd (DecodeRune (chr a # chr b # chr c # chr d # t)) = 4"
  using assms by (simp add: DecodeRune_four byte_chr cont_def RuneError_def)

lemma EncodeRune_wellformed:
  "DecodeRune (EncodeRune r @ t) \<noteq> (RuneError, 1)
   \<and> snd (DecodeRune (EncodeRune r @ t)) = length (EncodeRune r)"
proof -
  consider "r \<le> 127" | "128 \<le> r \<and> r \<le> 2047"
    | "2048 \<le> r \<and> (MaxRune < r \<or> IsSurrogate r)"
    | "2048 \<le> r \<and> r \<le> 65535 \<and> \<not> IsSurrogate r"
    | "65536 \<le> r \<and> r \<le> MaxRune"
    by (auto simp: MaxRune_def IsSurrogate_def) linarith
  then show ?thesis
  proof cases
    case 1
    then have "EncodeRune r = [chr r]" by (simp add: EncodeRune_def)
    moreover have "byte (chr r) = r" using 1 by (simp add: byte_chr)
    ultimately show ?thesis using 1 by (simp add: DecodeRune_ascii RuneError_def)
  next
    case 2
    define a b where "a = 192 + r div 64" and "b = 128 + r mod 64"
    have e: "EncodeRune r = [chr a, chr b]"
      using 2 by (simp add: EncodeRune_def a_def b_def)
    have q: "2 \<le> r div 64 \<and> r div 64 < 32" using 2 by linarith
    have "194 \<le> a" "a < 224" "128 \<le> b" "b \<le> 191"
      using q mod64_le [of r] by (simp_all add: a_def b_def)
    from wellformed_two [OF this, of t] show ?thesis by (simp add: e)
  next
    case 3
    then have e: "EncodeRune r = EncodeRune RuneError"
      by (auto simp add: EncodeRune_def RuneError_def MaxRune_def IsSurrogate_def)
    show ?thesis unfolding e using DecodeRune_RuneError_bytes [of t]
      by (simp add: RuneError_def EncodeRune_def MaxRune_def IsSurrogate_def)
  next
    case 4
    define a b c where "a = 224 + r div 4096" and "b = 128 + (r div 64) mod 64" and "c = 128 + r mod 64"
    have e: "EncodeRune r = [chr a, chr b, chr c]"
      using 4 by (simp add: EncodeRune_def MaxRune_def a_def b_def c_def)
    have q: "r div 4096 < 16" using 4 by linarith
    have lo: "a = 224 \<longrightarrow> 160 \<le> b"
    proof
      assume "a = 224"
      then have "r < 4096" unfolding a_def by linarith
      then have "32 \<le> r div 64 \<and> r div 64 < 64" using 4 by linarith
      then show "160 \<le> b" by (simp add: b_def)
    qed
    have hi: "a = 237 \<longrightarrow> b \<le> 159"
    proof
      assume "a = 237"
      then have r: "53248 \<le> r \<and> r < 57344" unfolding a_def by linarith
      then have r': "r < 55296" using 4 by (simp add: IsSurrogate_def)
      then have "13 * 64 \<le> r div 64 \<and> r div 64 < 13 * 64 + 64" using r by linarith
      then have "(r div 64) mod 64 = r div 64 - 13 * 64" by (intro mod_shift) simp_all
      moreover have "r div 64 < 864" using r' by linarith
      ultimately show "b \<le> 159" unfolding b_def by linarith
    qed
    have "224 \<le> a" "a < 240" "128 \<le> b" "b \<le> 191" "128 \<le> c" "c \<le> 191"
      using q mod64_le [of r] mod64_le [of "r div 64"] by (simp_all add: a_def b_def c_def)
    from wellformed_three [OF this lo hi, of t] show ?thesis by (simp add: e)
  next
    case 5
    define a b c d where "a = 240 + r div 262144" and "b = 128 + (r div 4096) mod 64"
      and "c = 128 + (r div 64) mod 64" and "d = 128 + r mod 64"
    have e: "EncodeRune r = [chr a, chr b, chr c, chr d]"
      using 5 by (simp add: EncodeRune_def MaxRune_def IsSurrogate_def a_def b_def c_def d_def)
    have r5: "65536 \<le> r" "r \<le> 1114111" using 5 by (simp_all add: MaxRune_def)
    have q: "r div 262144 \<le> 4" using r5 by linarith
    have lo: "a = 240 \<longrightarrow> 144 \<le> b"
    proof
      assume "a = 240"
      then have "r < 262144" unfolding a_def by linarith
      then have "16 \<le> r div 4096 \<and> r div 4096 < 64" using r5 by linarith
      then show "144 \<le> b" by (simp add: b_def)
    qed
    have hi: "a = 244 \<longrightarrow> b \<le> 143"
    proof
      assume "a = 244"
      then have "1048576 \<le> r" unfolding a_def by linarith
      then have "4 * 64 \<le> r div 4096 \<and> r div 4096 < 4 * 64 + 64" using r5 by linarith
      then have "(r div 4096) mod 64 = r div 4096 - 4 * 64" by (intro mod_shift) simp_all
      moreover have "r div 4096 \<le> 271" using r5 by linarith
      ultimately show "b \<le> 143" unfolding b_def by linarith
    qed
    have "240 \<le> a" "a \<le> 244" "128 \<le> b" "b \<le> 191" "128 \<le> c" "c \<le> 191" "128 \<le> d" "d \<le> 191"
      using q mod64_le [of r] mod64_le [of "r div 64"] mod64_le [of "r div 4096"]
      by (simp_all add: a_def b_def c_def d_def)
    from wellformed_four [OF this lo hi, of t] show ?thesis by (simp add: e)
  qed
qed

lemma ValidString_ascii: "byte c < 128 \<Longrightarrow> ValidString (c # t) = ValidString t"
  by (subst ValidString.simps(2)) (simp add: DecodeRune_ascii RuneError_def)

lemma ValidString_EncodeRune: "ValidString (EncodeRune r @ t) = ValidString t"
proof -
  obtain c cs where e: "EncodeRune r = c # cs"
    by (cases "EncodeRune r") (auto simp: EncodeRune_def split: if_splits)
  have w: "DecodeRune (c # cs @ t) \<noteq> (RuneError, 1)" "snd (DecodeRune (c # cs @ t)) = Suc (length cs)"
    using EncodeRune_wellformed [of r t] by (simp_all add: e)
  have "ValidString (c # cs @ t) = ValidString (drop (snd (DecodeRune (c # cs @ t)) - 1) (cs @ t))"
    using w(1) by (subst ValidString.simps(2)) simp
  then show ?thesis by (simp add: e w(2))
qed

lemma byte_escapes:
  "byte (CHR ''/'') < 128" "byte (CHR 0x27) < 128" "byte (CHR 0x08) < 128" "byte (CHR 0x0C) < 128"
  "byte dq < 128" "byte bs < 128" "byte LF < 128" "byte CR < 128" "byte TAB < 128"
  by (simp_all add: byte_def dq_def bs_def LF_def CR_def TAB_def)

lemma unquote_valid: "unquote raw = Some t \<Longrightarrow> ValidString t"
proof (induction "length raw" arbitrary: raw t rule: less_induct)
  case less
  show ?case
  proof (cases raw)
    case Nil
    then show ?thesis using less.prems by simp
  next
    case (Cons c cs)
    have IH: "ValidString t'" if "unquote raw' = Some t'" "length raw' \<le> length cs" for raw' t'
      using less.hyps [of raw' t'] that Cons by simp
    from less.prems show ?thesis
      unfolding Cons
      apply (subst (asm) unquote.simps(2))
      apply (auto split: if_splits list.splits option.splits
          simp: ValidString_ascii ValidString_EncodeRune byte_escapes
          dest: IH)
      done
  qed
qed

lemma parse_valid:
  "(parse_value n s = Some (v, rest) \<longrightarrow> valid_json v)
   \<and> (parse_elems n s = Some (vs, rest) \<longrightarrow> (\<forall>v \<in> set vs. valid_json v))
   \<and> (parse_members n s = Some (ms, rest) \<longrightarrow> (\<forall>v \<in> snd ` set ms. valid_json v))"
proof (induction n arbitrary: s v vs ms rest)
  case 0
  show ?case by simp
next
  case (Suc n)
  have V: "valid_json v'" if "parse_value n s' = Some (v', r')" for s' v' r'
    using Suc [of s' v' r'] that by simp
  have E: "\<forall>v \<in> set vs'. valid_json v" if "parse_elems n s' = Some (vs', r')" for s' vs' r'
    using Suc [of s' _ r' vs'] that by simp
  have M: "\<forall>v \<in> snd ` set ms'. valid_json v" if "parse_members n s' = Some (ms', r')" for s' ms' r'
    using Suc [of s' _ r' _ ms'] that by simp
  have 1: "valid_json v" if "parse_value (Suc n) s = Some (v, rest)"
    using that
    by (auto simp del: parse_value.simps(2) simp add: parse_value.simps(2) [of n s]
        split: list.splits if_splits option.splits prod.splits
        dest: E M unquote_valid)
  have 2: "\<forall>v \<in> set vs. valid_json v" if "parse_elems (Suc n) s = Some (vs, rest)"
  proof -
    from that obtain v0 r0 where v0: "parse_value n s = Some (v0, r0)"
      by (auto split: option.splits simp del: parse_value.simps)
    from that v0 consider vs0 r1 where "vs = v0 # vs0" "parse_elems n r1 = Some (vs0, rest)"
      | "vs = [v0]"
      by (auto split: list.splits if_splits option.splits simp del: parse_value.simps)
    then show ?thesis
    proof cases
      case 1
      then show ?thesis using V [OF v0] E [OF 1(2)] by simp
    next
      case 2
      then show ?thesis using V [OF v0] by simp
    qed
  qed
  have 3: "\<forall>v \<in> snd ` set ms. valid_json v" if "parse_members (Suc n) s = Some (ms, rest)"
  proof -
    from that consider k0 v0 r0 s0 ms0 r1 where "ms = (k0, v0) # ms0"
        "parse_value n s0 = Some (v0, r0)" "parse_members n r1 = Some (ms0, rest)"
      | k0 v0 r0 s0 where "ms = [(k0, v0)]" "parse_value n s0 = Some (v0, r0)"
      by (auto split: list.splits if_splits option.splits prod.splits simp del: parse_value.simps)
    then show ?thesis
    proof cases
      case 1
      then show ?thesis using V [OF 1(2)] M [OF 1(3)] by simp
    next
      case 2
      then show ?thesis using V [OF 2(2)] by simp
    qed
  qed
  show ?case using 1 2 3 by blast
qed

lemma decode_members_valid:
  "decode_members ms r = Inr r' \<Longrightarrow> \<forall>v \<in> snd ` set ms. valid_json v \<Longrightarrow> ValidString (Path r)
   \<Longrightarrow> ValidString (Path r')"
proof (induction ms arbitrary: r)
  case Nil
  then show ?case by simp
next
  case (Cons m ms)
  obtain k v where m: "m = (k, v)" by (cases m)
  show ?case using Cons.prems Cons.IH unfolding m
    by (auto split: if_splits json.splits option.splits simp del: equalFold.simps)
qed

lemma decode_record_valid:
  "decode_record v = Inr r \<Longrightarrow> valid_json v \<Longrightarrow> ValidString (Path r)"
  using decode_members_valid [of _ "\<lparr>Path = [], Size = 0\<rparr>" r]
  by (auto simp add: decode_record_def split: json.splits)

lemma decode_records_valid:
  "decode_records vs = Inr l \<Longrightarrow> \<forall>v \<in> set vs. valid_json v \<Longrightarrow> \<forall>r \<in> set l. ValidString (Path r)"
proof (induction vs arbitrary: l)
  case Nil
  then show ?case by simp
next
  case (Cons v vs)
  then show ?case
    by (auto split: sum.splits dest: decode_record_valid)
qed

lemma Unmarshal_valid:
  assumes "Unmarshal data = Inr l"
  shows "\<forall>r \<in> set l. ValidString (Path r)"
proof -
  from assms obtain v rest where p: "parse_value (Suc (length data)) (skip_ws data) = Some (v, rest)"
    and d: "(case v of JArr vs \<Rightarrow> decode_records vs | JNull \<Rightarrow> Inr [] | _ \<Rightarrow> Inl UnmarshalTypeError) = Inr l"
    by (auto simp add: Unmarshal_def split: option.splits if_splits simp del: parse_value.simps)
  have "valid_json v" using parse_valid [of "Suc (length data)" "skip_ws data" v rest] p by blast
  then show ?thesis using d
    by (cases v) (auto dest: decode_records_valid)
qed

lemma ledger_valid: "ledger s fs = Some l \<Longrightarrow> map coerce l = l"
  by (rule map_coerce_valid)
     (auto simp add: ledger_def split: option.splits sum.splits dest: Unmarshal_valid)

lemma append_ledger:
  assumes "stat_fault fs s = None" "read_fault fs s = None" "write_fault fs s = None"
    and "ledger s fs = Some l"
  shows "appendRecord r s fs
           = (Stored, fs\<lparr>files := (files fs)(s \<mapsto> projr (MarshalIndent (l @ [r])))\<rparr>)
         \<and> ledger s (snd (appendRecord r s fs)) = Some (l @ [coerce r])"
  using appendRecord_stored [OF assms, of r] ledger_valid [OF assms(4)]
  by (simp add: ledger_written)

lemma ValidString_examples:
  "ValidString ''a.txt''" "ValidString ''b.txt''"
  by (simp_all add: ValidString_ascii byte_def)

lemma ValidString_e_acute: "ValidString [CHR 0xC3, CHR 0xA9]"
  by (simp add: ValidString.simps(2) DecodeRune_two byte_def cont_def RuneError_def)

lemma ToValidUTF8_FF: "ToValidUTF8 [CHR 0xFF] = [CHR 0xEF, CHR 0xBF, CHR 0xBD]"
  by (simp add: tv_bad DecodeRune_bad_head byte_def EncodeRune_def RuneError_def MaxRune_def
        IsSurrogate_def chr_def char_of_eq_iff take_bit_eq_mod)

lemma coerce_ascii_examples:
  "coerce \<lparr>Path = ''a.txt'', Size = n\<rparr> = \<lparr>Path = ''a.txt'', Size = n\<rparr>"
  "coerce \<lparr>Path = ''b.txt'', Size = n\<rparr> = \<lparr>Path = ''b.txt'', Size = n\<rparr>"
  by (simp_all add: coerce_valid ValidString_examples)

lemma Unmarshal_empty: "Unmarshal [] = Inl SyntaxError"
  by (simp add: Unmarshal_def skip_ws_def)

lemma Unmarshal_bracket: "Unmarshal ''['' = Inl SyntaxError"
  by (simp add: Unmarshal_def skip_ws_def isSpace_def LF_def CR_def TAB_def)

lemma readExisting_absent: "files fs s = None \<Longrightarrow> readExisting s fs = Inr []"
  by (simp add: readExisting_def Stat_def split: option.splits)

lemma readExisting_stat_fault: "stat_fault fs s = Some e \<Longrightarrow> readExisting s fs = Inr []"
  by (simp add: readExisting_def Stat_def)

lemma ledger_stat_denied: "ledger ''db.json'' stat_denied = Some two_records"
proof -
  have "ledger ''db.json'' stat_denied = Some (map coerce two_records)"
    by (simp add: stat_denied_def plain_fs_def ledger_def Unmarshal_projr)
  then show ?thesis by (simp add: two_records_def coerce_ascii_examples)
qed

lemma Unmarshal_oops: "Unmarshal ''oops'' = Inl SyntaxError"
  by (simp add: Unmarshal_def skip_ws_def isSpace_def LF_def CR_def TAB_def dq_def isDigit_def byte_def)

lemma readExisting_disk_full: "readExisting ''db.json'' disk_full = Inr one_record"
proof -
  have "ledger ''db.json'' disk_full = Some (map coerce one_record)"
    by (simp add: disk_full_def plain_fs_def ledger_def Unmarshal_projr)
  then have l: "ledger ''db.json'' disk_full = Some one_record"
    by (simp add: one_record_def coerce_ascii_examples)
  show ?thesis
    by (rule existing_data [OF _ _ l]) (simp_all add: disk_full_def plain_fs_def)
qed

lemma append_faults:
  assumes "stat_fault fs s = None" "read_fault fs s = None" "write_fault fs s = None"
    and "ledger s fs = Some l"
  shows "stat_fault (snd (appendRecord r s fs)) = stat_fault fs"
    "read_fault (snd (appendRecord r s fs)) = read_fault fs"
    "write_fault (snd (appendRecord r s fs)) = write_fault fs"
    "p \<noteq> s \<Longrightarrow> files (snd (appendRecord r s fs)) p = files fs p"
  using appendRecord_stored [OF assms, of r] by simp_all

lemma step_call_pending:
  assumes "readExisting s fs = Inr l"
  shows "step_call s (Pending r) fs = (Loaded (l @ [r]), fs)"
  using assms by (simp add: step_call_def)

lemma step_call_loaded:
  assumes "write_fault fs s = None"
  shows "step_call s (Loaded rs) fs
         = (Finished Stored, fs\<lparr>files := (files fs)(s \<mapsto> projr (MarshalIndent rs))\<rparr>)"
  by (simp add: step_call_def writeUpdated_stored [OF assms])

lemma run_twice:
  assumes "stat_fault fs s = None" "read_fault fs s = None" "write_fault fs s = None"
    and "ledger s fs = Some l" and "i < length calls" and "calls ! i = Pending r"
  shows "run s (i # i # schedule) (calls, fs)
         = run s schedule (calls[i := Finished Stored],
                           fs\<lparr>files := (files fs)(s \<mapsto> projr (MarshalIndent (l @ [r])))\<rparr>)"
  using assms(5,6)
  by (simp add: step_call_pending [OF existing_data [OF assms(1,2,4)]] step_call_loaded [OF assms(3)])

lemma run_serial:
  assumes "stat_fault fs s = None" "read_fault fs s = None" "write_fault fs s = None"
    and "ledger s fs = Some l" and "distinct order"
    and "\<forall>i \<in> set order. i < length calls \<and> calls ! i = Pending (rec i)"
  shows "length (fst (run s (serial order) (calls, fs))) = length calls
         \<and> (\<forall>i \<in> set order. fst (run s (serial order) (calls, fs)) ! i = Finished Stored)
         \<and> (\<forall>j. j \<notin> set order \<longrightarrow> fst (run s (serial order) (calls, fs)) ! j = calls ! j)
         \<and> ledger s (snd (run s (serial order) (calls, fs))) = Some (l @ map (\<lambda>i. coerce (rec i)) order)"
  using assms
proof (induction order arbitrary: calls fs l)
  case Nil
  then show ?case by (simp add: serial_def)
next
  case (Cons i order)
  let ?fs1 = "fs\<lparr>files := (files fs)(s \<mapsto> projr (MarshalIndent (l @ [rec i])))\<rparr>"
  let ?calls1 = "calls[i := Finished Stored]"
  have i: "i < length calls" "calls ! i = Pending (rec i)" "i \<notin> set order" "distinct order"
    using Cons.prems(5,6) by simp_all
  have r: "run s (serial (i # order)) (calls, fs) = run s (serial order) (?calls1, ?fs1)"
    using run_twice [OF Cons.prems(1-4) i(1,2), of "serial order"] by (simp add: serial_def)
  have f: "stat_fault ?fs1 s = None" "read_fault ?fs1 s = None" "write_fault ?fs1 s = None"
    using Cons.prems(1-3) by simp_all
  have l1: "ledger s ?fs1 = Some (l @ [coerce (rec i)])"
    using ledger_valid [OF Cons.prems(4)] by (simp add: ledger_written)
  have p: "\<forall>j \<in> set order. j < length ?calls1 \<and> ?calls1 ! j = Pending (rec j)"
  proof
    fix j
    assume j: "j \<in> set order"
    then have "i \<noteq> j" using i(3) by blast
    then show "j < length ?calls1 \<and> ?calls1 ! j = Pending (rec j)"
      using Cons.prems(6) j by simp
  qed
  note IH = Cons.IH [OF f l1 i(4) p]
  show ?case
    unfolding r using IH i(1,3) by auto
qed

section \<open>Lemmas on truncated input\<close>

lemma skip_ws_append: "skip_ws s \<noteq> [] \<Longrightarrow> skip_ws (s @ u) = skip_ws s @ u"
  unfolding skip_ws_def by (induction s) auto

lemma scan_string_append:
  "scan_string t = Some (raw, r) \<Longrightarrow> scan_string (t @ u) = Some (raw, r @ u)"
proof (induction t arbitrary: raw rule: scan_string.induct)
  case 1
  then show ?case by simp
next
  case (2 c cs)
  show ?case
  proof (cases "c = dq")
    case True
    then show ?thesis using 2(4) by (simp add: scan_string.simps(2))
  next
    case ndq: False
    show ?thesis
    proof (cases "c = bs")
      case False
      from 2(4) ndq False have b: "\<not> byte c < 0x20"
        by (subst (asm) scan_string.simps(2)) (simp split: if_splits)
      from 2(4) ndq False b obtain raw' where r: "scan_string cs = Some (raw', r)" "raw = c # raw'"
        by (subst (asm) scan_string.simps(2)) (auto simp del: not_None_eq)
      have "scan_string (cs @ u) = Some (raw', r @ u)"
        by (rule 2(3) [OF ndq False b r(1)])
      then show ?thesis using ndq False b r(2)
        by (simp add: scan_string.simps(2))
    next
      case True
      from 2(4) True ndq obtain e cs' where cs: "cs = e # cs'"
        by (subst (asm) scan_string.simps(2)) (auto split: list.splits simp del: not_None_eq)
      let ?simple = "e = CHR ''b'' \<or> e = CHR ''f'' \<or> e = CHR ''n'' \<or> e = CHR ''r'' \<or> e = CHR ''t''
                \<or> e = bs \<or> e = CHR ''/'' \<or> e = dq"
      show ?thesis
      proof (cases ?simple)
        case s: True
        from 2(4) True ndq cs s obtain raw' where r: "scan_string cs' = Some (raw', r)" "raw = c # e # raw'"
          by (subst (asm) scan_string.simps(2)) (auto simp del: not_None_eq)
        have "scan_string (cs' @ u) = Some (raw', r @ u)"
          by (rule 2(1) [OF ndq True cs s r(1)])
        then show ?thesis using ndq True cs s r(2)
          by (simp add: scan_string.simps(2) del: not_None_eq)
      next
        case ns: False
        from 2(4) True ndq cs ns
        have h: "e = CHR ''u'' \<and> 4 \<le> length cs' \<and> list_all (\<lambda>h. hexval h \<noteq> None) (take 4 cs')"
          by (subst (asm) scan_string.simps(2)) (simp split: if_splits del: not_None_eq)
        from 2(4) True ndq cs ns h obtain raw' where r: "scan_string (drop 4 cs') = Some (raw', r)"
            "raw = c # e # take 4 cs' @ raw'"
          by (subst (asm) scan_string.simps(2)) (auto simp del: not_None_eq)
        have "scan_string (drop 4 cs' @ u) = Some (raw', r @ u)"
          by (rule 2(2) [OF ndq True cs ns h r(1)])
        then show ?thesis using ndq True cs ns h r(2)
          by (simp add: scan_string.simps(2) del: not_None_eq)
      qed
    qed
  qed
qed

lemma takeWhile_append_stop:
  "dropWhile P s \<noteq> [] \<Longrightarrow> takeWhile P (s @ u) = takeWhile P s"
  by (induction s) auto

lemma dropWhile_append_stop:
  "dropWhile P s \<noteq> [] \<Longrightarrow> dropWhile P (s @ u) = dropWhile P s @ u"
  by (induction s) auto

lemma scan_frac_append:
  assumes "scan_frac s = Some (fr, s2)" "s2 \<noteq> []"
  shows "scan_frac (s @ u) = Some (fr, s2 @ u)"
proof (cases s)
  case Nil
  then show ?thesis using assms by (simp add: scan_frac_def)
next
  case (Cons c t)
  show ?thesis
  proof (cases "c = CHR ''.''")
    case True
    from assms have d: "dropWhile isDigit t \<noteq> []" "takeWhile isDigit t \<noteq> []"
        "fr = c # takeWhile isDigit t" "s2 = dropWhile isDigit t"
      unfolding Cons scan_frac_def using True by (auto split: if_splits)
    show ?thesis
      unfolding Cons scan_frac_def using True d
      by (simp add: takeWhile_append_stop dropWhile_append_stop)
  next
    case False
    then show ?thesis using assms unfolding Cons scan_frac_def by auto
  qed
qed

lemma scan_exp_append:
  assumes "scan_exp s = Some (ex, s3)" "s3 \<noteq> []"
  shows "scan_exp (s @ u) = Some (ex, s3 @ u)"
proof (cases s)
  case Nil
  then show ?thesis using assms by (simp add: scan_exp_def)
next
  case (Cons c t)
  show ?thesis
  proof (cases "c = CHR ''e'' \<or> c = CHR ''E''")
    case False
    then show ?thesis using assms unfolding Cons scan_exp_def by auto
  next
    case True
    define sg where "sg = (case t of [] \<Rightarrow> [] | g # _ \<Rightarrow> if g = CHR ''+'' \<or> g = CHR ''-'' then [g] else [])"
    define t' where "t' = drop (length sg) t"
    from assms True have d: "takeWhile isDigit t' \<noteq> []" "ex = c # sg @ takeWhile isDigit t'"
        "s3 = dropWhile isDigit t'"
      unfolding Cons scan_exp_def sg_def t'_def by (auto simp add: Let_def split: if_splits)
    have tn: "t \<noteq> []" using d(1) by (auto simp add: t'_def)
    have sg': "(case t @ u of [] \<Rightarrow> [] | g # _ \<Rightarrow> if g = CHR ''+'' \<or> g = CHR ''-'' then [g] else []) = sg"
      using tn by (cases t) (simp_all add: sg_def)
    have l: "length sg \<le> length t" using tn by (cases t) (simp_all add: sg_def)
    have dr: "drop (length sg) (t @ u) = t' @ u" using l by (simp add: t'_def)
    have nz: "dropWhile isDigit t' \<noteq> []" using d(3) assms(2) by simp
    show ?thesis
      unfolding Cons append_Cons scan_exp_def
      using True d(1,2,3)
      by (simp add: sg' dr Let_def takeWhile_append_stop [OF nz] dropWhile_append_stop [OF nz]
            del: drop_append)
  qed
qed

lemma scan_frac_suffix: "scan_frac [] = Some ([], [])"
  by (simp add: scan_frac_def)

lemma scan_exp_suffix: "scan_exp [] = Some ([], [])"
  by (simp add: scan_exp_def)

lemma list_case_eq: "xs = y # ys \<Longrightarrow> (case xs of [] \<Rightarrow> a | z # zs \<Rightarrow> f z zs) = f y ys"
  by simp

lemma scan_number_append:
  assumes "scan_number t = Some (lit, r)" "r \<noteq> []"
  shows "scan_number (t @ u) = Some (lit, r @ u)"
proof -
  define sg where "sg = (case t of [] \<Rightarrow> [] | g # _ \<Rightarrow> if g = CHR ''-'' then [g] else [])"
  define s1 where "s1 = drop (length sg) t"
  from assms(1) obtain d t1 where s1: "s1 = d # t1" and dd: "isDigit d"
    unfolding scan_number_def sg_def [symmetric] Let_def s1_def [symmetric]
    by (auto split: list.splits if_splits)
  define ip where "ip = (if d = CHR ''0'' then [d] else takeWhile isDigit s1)"
  from assms(1) obtain fr s2 ex where f: "scan_frac (drop (length ip) s1) = Some (fr, s2)"
    and e: "scan_exp s2 = Some (ex, r)" and lit: "lit = sg @ ip @ fr @ ex"
    unfolding scan_number_def sg_def [symmetric] Let_def s1_def [symmetric]
    using s1 dd ip_def
    by (auto split: list.splits if_splits option.splits)
  have s2n: "s2 \<noteq> []" using e assms(2) by (auto simp add: scan_exp_suffix)
  have r0: "drop (length ip) s1 \<noteq> []" using f s2n by (auto simp add: scan_frac_suffix)
  have tn: "t \<noteq> []" using s1 by (auto simp add: s1_def)
  have sg': "(case t @ u of [] \<Rightarrow> [] | g # _ \<Rightarrow> if g = CHR ''-'' then [g] else []) = sg"
    using tn by (cases t) (simp_all add: sg_def)
  have l: "length sg \<le> length t" using tn by (cases t) (simp_all add: sg_def)
  have dr: "drop (length sg) (t @ u) = s1 @ u" using l by (simp add: s1_def)
  have c: "s1 @ u = d # (t1 @ u)" by (simp add: s1)
  have ip': "(if d = CHR ''0'' then [d] else takeWhile isDigit (s1 @ u)) = ip"
  proof (cases "d = CHR ''0''")
    case True
    then show ?thesis by (simp add: ip_def)
  next
    case False
    have "dropWhile isDigit s1 \<noteq> []"
      using r0 False by (simp add: ip_def dropWhile_eq_drop)
    then have "takeWhile isDigit (s1 @ u) = takeWhile isDigit s1"
      by (rule takeWhile_append_stop)
    then show ?thesis using False by (simp add: ip_def)
  qed
  have li: "length ip \<le> length s1"
  proof (cases "d = CHR ''0''")
    case True
    then show ?thesis by (simp add: ip_def s1)
  next
    case False
    then show ?thesis using length_takeWhile_le [of isDigit s1] by (simp add: ip_def)
  qed
  have dr2: "drop (length ip) (s1 @ u) = drop (length ip) s1 @ u"
    using li by simp
  have f': "scan_frac (drop (length ip) s1 @ u) = Some (fr, s2 @ u)"
    by (rule scan_frac_append [OF f s2n])
  have e': "scan_exp (s2 @ u) = Some (ex, r @ u)"
    by (rule scan_exp_append [OF e assms(2)])
  have "scan_number (t @ u)
        = (if \<not> isDigit d then None
           else case scan_frac (drop (length (if d = CHR ''0'' then [d] else takeWhile isDigit (s1 @ u))) (s1 @ u)) of
                  None \<Rightarrow> None
                | Some (fr, s2) \<Rightarrow>
                    (case scan_exp s2 of
                       None \<Rightarrow> None
                     | Some (ex, s3) \<Rightarrow>
                         Some (sg @ (if d = CHR ''0'' then [d] else takeWhile isDigit (s1 @ u)) @ fr @ ex, s3)))"
    unfolding scan_number_def sg' Let_def dr
    by (simp only: list_case_eq [OF c])
  also have "\<dots> = Some (lit, r @ u)"
    unfolding ip' dr2 f' using dd by (simp add: e' lit)
  finally show ?thesis .
qed

lemma parse_value_obj:
  "parse_value (Suc n) (CHR 0x7B # cs) =
     (case skip_ws cs of
        [] \<Rightarrow> None
      | k # r \<Rightarrow>
          if k = CHR 0x7D then Some (JObj [], r)
          else map_option (\<lambda>(ms, rest). (JObj ms, rest)) (parse_members n (k # r)))"
  by simp

lemma parse_value_arr:
  "parse_value (Suc n) (CHR ''['' # cs) =
     (case skip_ws cs of
        [] \<Rightarrow> None
      | k # r \<Rightarrow>
          if k = CHR '']'' then Some (JArr [], r)
          else map_option (\<lambda>(vs, rest). (JArr vs, rest)) (parse_elems n (k # r)))"
  by simp

lemma parse_value_flat:
  "c \<noteq> CHR 0x7B \<Longrightarrow> c \<noteq> CHR ''['' \<Longrightarrow> parse_value (Suc n) (c # cs) = parse_value (Suc 0) (c # cs)"
  by simp

lemma parse_value_obj_iff:
  "parse_value (Suc n) (CHR 0x7B # cs) = Some (v, rest) \<longleftrightarrow>
     (\<exists>k r. skip_ws cs = k # r
        \<and> ((k = CHR 0x7D \<and> v = JObj [] \<and> rest = r)
             \<or> (k \<noteq> CHR 0x7D \<and> (\<exists>ms. parse_members n (k # r) = Some (ms, rest) \<and> v = JObj ms))))"
  unfolding parse_value_obj
  by (auto split: list.splits simp del: parse_members.simps)

lemma parse_value_arr_iff:
  "parse_value (Suc n) (CHR ''['' # cs) = Some (v, rest) \<longleftrightarrow>
     (\<exists>k r. skip_ws cs = k # r
        \<and> ((k = CHR '']'' \<and> v = JArr [] \<and> rest = r)
             \<or> (k \<noteq> CHR '']'' \<and> (\<exists>vs. parse_elems n (k # r) = Some (vs, rest) \<and> v = JArr vs))))"
  unfolding parse_value_arr
  by (auto split: list.splits simp del: parse_elems.simps)

lemma parse_elems_iff:
  "parse_elems (Suc n) s = Some (vs, rest) \<longleftrightarrow>
     (\<exists>v r c r'. parse_value n s = Some (v, r) \<and> skip_ws r = c # r'
        \<and> ((c = CHR '','' \<and> (\<exists>vs0. parse_elems n (skip_ws r') = Some (vs0, rest) \<and> vs = v # vs0))
             \<or> (c = CHR '']'' \<and> vs = [v] \<and> rest = r')))"
  by (auto split: list.splits option.splits simp del: parse_value.simps parse_elems.simps(2)
        simp add: parse_elems.simps(2) [of n s])

lemma parse_members_iff:
  "parse_members (Suc n) s = Some (ms, rest) \<longleftrightarrow>
     (\<exists>cs raw r key r1 v r2 c r3.
        s = dq # cs \<and> scan_string cs = Some (raw, r) \<and> unquote raw = Some key
        \<and> skip_ws r = CHR '':'' # r1 \<and> parse_value n (skip_ws r1) = Some (v, r2)
        \<and> skip_ws r2 = c # r3
        \<and> ((c = CHR '','' \<and> (\<exists>ms0. parse_members n (skip_ws r3) = Some (ms0, rest) \<and> ms = (key, v) # ms0))
             \<or> (c = CHR 0x7D \<and> ms = [(key, v)] \<and> rest = r3)))"
  by (auto split: list.splits option.splits simp del: parse_value.simps parse_members.simps(2) not_None_eq
        simp add: parse_members.simps(2) [of n s])

lemma parse_fuel_Suc:
  "(parse_value n s = Some (v, rest) \<longrightarrow> parse_value (Suc n) s = Some (v, rest))
   \<and> (parse_elems n s = Some (vs, rest) \<longrightarrow> parse_elems (Suc n) s = Some (vs, rest))
   \<and> (parse_members n s = Some (ms, rest) \<longrightarrow> parse_members (Suc n) s = Some (ms, rest))"
proof (induction n arbitrary: s v vs ms rest)
  case 0
  show ?case by simp
next
  case (Suc n)
  have V: "parse_value (Suc n) s' = Some (v', r')" if "parse_value n s' = Some (v', r')" for s' v' r'
    using Suc [of s' v' r'] that by blast
  have E: "parse_elems (Suc n) s' = Some (vs', r')" if "parse_elems n s' = Some (vs', r')" for s' vs' r'
    using Suc [of s' _ r' vs'] that by blast
  have M: "parse_members (Suc n) s' = Some (ms', r')" if "parse_members n s' = Some (ms', r')" for s' ms' r'
    using Suc [of s' _ r' _ ms'] that by blast
  have 1: "parse_value (Suc (Suc n)) s = Some (v, rest)" if a: "parse_value (Suc n) s = Some (v, rest)"
  proof (cases s)
    case Nil
    then show ?thesis using a by simp
  next
    case (Cons c cs)
    consider "c = CHR 0x7B" | "c = CHR ''[''" | "c \<noteq> CHR 0x7B" "c \<noteq> CHR ''[''" by blast
    then show ?thesis
    proof cases
      case 1
      from a show ?thesis unfolding Cons 1 parse_value_obj_iff using M by blast
    next
      case 2
      from a show ?thesis unfolding Cons 2 parse_value_arr_iff using E by blast
    next
      case 3
      from a show ?thesis unfolding Cons
        using parse_value_flat [OF 3, of n cs] parse_value_flat [OF 3, of "Suc n" cs] by simp
    qed
  qed
  have 2: "parse_elems (Suc (Suc n)) s = Some (vs, rest)" if a: "parse_elems (Suc n) s = Some (vs, rest)"
  proof -
    from a [unfolded parse_elems_iff] obtain v0 r c r'
      where p: "parse_value n s = Some (v0, r)" "skip_ws r = c # r'"
        and d: "(c = CHR '','' \<and> (\<exists>vs0. parse_elems n (skip_ws r') = Some (vs0, rest) \<and> vs = v0 # vs0))
             \<or> (c = CHR '']'' \<and> vs = [v0] \<and> rest = r')"
      by blast
    have d': "(c = CHR '','' \<and> (\<exists>vs0. parse_elems (Suc n) (skip_ws r') = Some (vs0, rest) \<and> vs = v0 # vs0))
             \<or> (c = CHR '']'' \<and> vs = [v0] \<and> rest = r')"
      using d E by blast
    show ?thesis
      by (rule iffD2 [OF parse_elems_iff]) (use V [OF p(1)] p(2) d' in blast)
  qed
  have 3: "parse_members (Suc (Suc n)) s = Some (ms, rest)" if a: "parse_members (Suc n) s = Some (ms, rest)"
  proof -
    from a [unfolded parse_members_iff] obtain cs raw r key r1 v0 r2 c r3
      where p: "s = dq # cs" "scan_string cs = Some (raw, r)" "unquote raw = Some key"
        "skip_ws r = CHR '':'' # r1" "parse_value n (skip_ws r1) = Some (v0, r2)"
        "skip_ws r2 = c # r3"
        and d: "(c = CHR '','' \<and> (\<exists>ms0. parse_members n (skip_ws r3) = Some (ms0, rest) \<and> ms = (key, v0) # ms0))
             \<or> (c = CHR 0x7D \<and> ms = [(key, v0)] \<and> rest = r3)"
      by blast
    have d': "(c = CHR '','' \<and> (\<exists>ms0. parse_members (Suc n) (skip_ws r3) = Some (ms0, rest) \<and> ms = (key, v0) # ms0))
             \<or> (c = CHR 0x7D \<and> ms = [(key, v0)] \<and> rest = r3)"
      using d M by blast
    show ?thesis
      by (rule iffD2 [OF parse_members_iff]) (use p(1-4) V [OF p(5)] p(6) d' in blast)
  qed
  show ?case using 1 2 3 by blast
qed

lemma parse_value_fuel:
  "parse_value n s = Some (v, rest) \<Longrightarrow> n \<le> m \<Longrightarrow> parse_value m s = Some (v, rest)"
proof (induction m)
  case 0
  then show ?case by simp
next
  case (Suc m)
  show ?case
  proof (cases "n = Suc m")
    case True
    then show ?thesis using Suc.prems by simp
  next
    case False
    then have "parse_value m s = Some (v, rest)" using Suc by simp
    then show ?thesis using parse_fuel_Suc [of m s v rest] by blast
  qed
qed

lemma parse_value_str:
  "parse_value (Suc n) (dq # cs) =
     (case scan_string cs of
        None \<Rightarrow> None
      | Some (raw, rest) \<Rightarrow> map_option (\<lambda>t. (JStr t, rest)) (unquote raw))"
  by (simp add: dq_neqs)

lemma digit_neqs:
  assumes "c = CHR ''-'' \<or> isDigit c"
  shows "c \<noteq> CHR 0x7B" "c \<noteq> CHR ''[''" "c \<noteq> dq"
  using assms by (auto simp add: isDigit_def byte_def dq_def)

lemma parse_value_num:
  assumes "c = CHR ''-'' \<or> isDigit c"
  shows "parse_value (Suc n) (c # cs) = map_option (\<lambda>(lit, rest). (JNum lit, rest)) (scan_number (c # cs))"
  using digit_neqs [OF assms] assms
  by (subst parse_value.simps(2)) (simp only: list.case if_False if_True)

lemma parse_value_lit:
  assumes "c \<noteq> CHR 0x7B" "c \<noteq> CHR ''[''" "c \<noteq> dq" "\<not> (c = CHR ''-'' \<or> isDigit c)"
  shows "parse_value (Suc n) (c # cs) =
          (if take 4 (c # cs) = ''true'' then Some (JBool True, drop 4 (c # cs))
           else if take 5 (c # cs) = ''false'' then Some (JBool False, drop 5 (c # cs))
           else if take 4 (c # cs) = ''null'' then Some (JNull, drop 4 (c # cs))
           else None)"
  using assms
  by (subst parse_value.simps(2)) (simp only: list.case if_False if_True)

lemma take_literal_append:
  assumes "take n s = lit" "length lit = n"
  shows "take n (s @ u) = lit" "drop n (s @ u) = drop n s @ u"
proof -
  have "n \<le> length s" using assms by (metis length_take min.cobounded1 min.commute)
  then show "take n (s @ u) = lit" "drop n (s @ u) = drop n s @ u" using assms(1) by simp_all
qed

lemma take_literal_append_neq:
  assumes "take n s \<noteq> lit" "take m s = lit'" "length lit' = m" "n \<le> m"
  shows "take n (s @ u) \<noteq> lit"
proof -
  have "m \<le> length s" using assms(2,3) by (metis length_take min.cobounded1 min.commute)
  then have "n \<le> length s" using assms(4) by simp
  then show ?thesis using assms(1) by simp
qed

lemma parse_value_flat_append:
  assumes p: "parse_value (Suc n) (c # cs) = Some (v, r)"
    and c: "c \<noteq> CHR 0x7B" "c \<noteq> CHR ''[''"
    and nn: "(\<forall>lit. v \<noteq> JNum lit) \<or> r \<noteq> []"
  shows "parse_value (Suc n) (c # cs @ u) = Some (v, r @ u)"
proof -
  consider "c = dq" | "c \<noteq> dq" "c = CHR ''-'' \<or> isDigit c"
    | "c \<noteq> dq" "\<not> (c = CHR ''-'' \<or> isDigit c)" by blast
  then show ?thesis
  proof cases
    case 1
    from p obtain raw t where s: "scan_string cs = Some (raw, r)" and q: "unquote raw = Some t"
      and v: "v = JStr t"
      unfolding 1 parse_value_str
      by (auto split: option.splits simp del: not_None_eq parse_value.simps)
    show ?thesis unfolding 1 parse_value_str
      using scan_string_append [OF s, of u] q v by simp
  next
    case 2
    from p obtain lit where s: "scan_number (c # cs) = Some (lit, r)" and v: "v = JNum lit"
      unfolding parse_value_num [OF 2(2)]
      by (auto split: option.splits simp del: parse_value.simps)
    from nn v have "r \<noteq> []" by simp
    from scan_number_append [OF s this, of u] show ?thesis
      unfolding parse_value_num [OF 2(2)] using v by simp
  next
    case 3
    let ?s = "c # cs"
    note L = parse_value_lit [OF c 3]
    have L': "parse_value (Suc n) (?s @ u) =
          (if take 4 (?s @ u) = ''true'' then Some (JBool True, drop 4 (?s @ u))
           else if take 5 (?s @ u) = ''false'' then Some (JBool False, drop 5 (?s @ u))
           else if take 4 (?s @ u) = ''null'' then Some (JNull, drop 4 (?s @ u))
           else None)"
      unfolding append_Cons by (rule L)
    consider "take 4 ?s = ''true''" | "take 4 ?s \<noteq> ''true''" "take 5 ?s = ''false''"
      | "take 4 ?s \<noteq> ''true''" "take 5 ?s \<noteq> ''false''" "take 4 ?s = ''null''"
      | "take 4 ?s \<noteq> ''true''" "take 5 ?s \<noteq> ''false''" "take 4 ?s \<noteq> ''null''"
      by blast
    then have "parse_value (Suc n) (?s @ u) = Some (v, r @ u)"
    proof cases
      case 1
      have e: "take 4 (?s @ u) = ''true''" "drop 4 (?s @ u) = drop 4 ?s @ u"
        by (rule take_literal_append [OF 1], simp)+
      have "v = JBool True \<and> r = drop 4 ?s"
        using p unfolding L by (simp only: 1 if_True) simp
      then show ?thesis unfolding L' by (simp only: e if_True) simp
    next
      case 2
      have e: "take 5 (?s @ u) = ''false''" "drop 5 (?s @ u) = drop 5 ?s @ u"
        by (rule take_literal_append [OF 2(2)], simp)+
      have t: "take 4 (?s @ u) \<noteq> ''true''"
        by (rule take_literal_append_neq [OF 2(1) 2(2)]) simp_all
      have "v = JBool False \<and> r = drop 5 ?s"
        using p unfolding L by (simp only: 2 if_True if_False) simp
      then show ?thesis unfolding L' using t by (simp only: e if_True if_False) simp
    next
      case 3
      have e: "take 4 (?s @ u) = ''null''" "drop 4 (?s @ u) = drop 4 ?s @ u"
        by (rule take_literal_append [OF 3(3)], simp)+
      have t: "take 4 (?s @ u) \<noteq> ''true''"
        by (rule take_literal_append_neq [OF 3(1) 3(3)]) simp_all
      have f: "take 5 (?s @ u) \<noteq> ''false''"
      proof
        assume a: "take 5 (?s @ u) = ''false''"
        have "?s @ u = take 5 (?s @ u) @ drop 5 (?s @ u)" by (simp only: append_take_drop_id)
        then obtain w where "?s @ u = ''false'' @ w" unfolding a by blast
        then have "take 4 (?s @ u) = ''fals''" by (simp only:) simp
        with e(1) show False by (simp only:) simp
      qed
      have "v = JNull \<and> r = drop 4 ?s"
        using p unfolding L by (simp only: 3 if_True if_False) simp
      then show ?thesis unfolding L' using t f by (simp only: e if_True if_False) simp
    next
      case 4
      then show ?thesis using p unfolding L by (simp only: if_False) simp
    qed
    then show ?thesis by simp
  qed
qed

lemma parse_value_Nil: "parse_value n [] = None"
  by (cases n) simp_all

lemma parse_elems_Nil: "parse_elems n [] = None"
  by (cases n) (simp_all add: parse_value_Nil del: parse_value.simps)

lemma parse_members_Nil: "parse_members n [] = None"
  by (cases n) simp_all

lemma skip_ws_append_Cons: "skip_ws s = c # r \<Longrightarrow> skip_ws (s @ u) = c # r @ u"
  using skip_ws_append [of s u] by simp

lemma parse_append:
  "(parse_value n t = Some (v, r) \<longrightarrow> (\<forall>lit. v \<noteq> JNum lit) \<or> r \<noteq> []
      \<longrightarrow> parse_value n (t @ u) = Some (v, r @ u))
   \<and> (parse_elems n t = Some (vs, r) \<longrightarrow> parse_elems n (t @ u) = Some (vs, r @ u))
   \<and> (parse_members n t = Some (ms, r) \<longrightarrow> parse_members n (t @ u) = Some (ms, r @ u))"
proof (induction n arbitrary: t v vs ms r)
  case 0
  show ?case by simp
next
  case (Suc n)
  have V: "parse_value n (t' @ u) = Some (v', r' @ u)"
    if "parse_value n t' = Some (v', r')" "r' \<noteq> []" for t' v' r'
    using Suc [of t' v' r'] that by blast
  have E: "parse_elems n (t' @ u) = Some (vs', r' @ u)" if "parse_elems n t' = Some (vs', r')" for t' vs' r'
    using Suc [of t' _ r' vs'] that by blast
  have M: "parse_members n (t' @ u) = Some (ms', r' @ u)" if "parse_members n t' = Some (ms', r')" for t' ms' r'
    using Suc [of t' _ r' _ ms'] that by blast
  have 1: "parse_value (Suc n) (t @ u) = Some (v, r @ u)"
    if a: "parse_value (Suc n) t = Some (v, r)" and nn: "(\<forall>lit. v \<noteq> JNum lit) \<or> r \<noteq> []"
  proof (cases t)
    case Nil
    then show ?thesis using a by simp
  next
    case (Cons c cs)
    consider "c = CHR 0x7B" | "c = CHR ''[''" | "c \<noteq> CHR 0x7B" "c \<noteq> CHR ''[''" by blast
    then show ?thesis
    proof cases
      case 1
      from a [unfolded Cons 1 parse_value_obj_iff] obtain k r0 where k: "skip_ws cs = k # r0"
        and d: "(k = CHR 0x7D \<and> v = JObj [] \<and> r = r0)
             \<or> (k \<noteq> CHR 0x7D \<and> (\<exists>ms. parse_members n (k # r0) = Some (ms, r) \<and> v = JObj ms))"
        by blast
      have k': "skip_ws (cs @ u) = k # (r0 @ u)" by (rule skip_ws_append_Cons [OF k])
      have d': "(k = CHR 0x7D \<and> v = JObj [] \<and> r @ u = r0 @ u)
             \<or> (k \<noteq> CHR 0x7D \<and> (\<exists>ms. parse_members n (k # (r0 @ u)) = Some (ms, r @ u) \<and> v = JObj ms))"
        using d M [of "k # r0"] by auto
      show ?thesis unfolding Cons 1 append_Cons
        by (rule iffD2 [OF parse_value_obj_iff]) (use k' d' in blast)
    next
      case 2
      from a [unfolded Cons 2 parse_value_arr_iff] obtain k r0 where k: "skip_ws cs = k # r0"
        and d: "(k = CHR '']'' \<and> v = JArr [] \<and> r = r0)
             \<or> (k \<noteq> CHR '']'' \<and> (\<exists>vs. parse_elems n (k # r0) = Some (vs, r) \<and> v = JArr vs))"
        by blast
      have k': "skip_ws (cs @ u) = k # (r0 @ u)" by (rule skip_ws_append_Cons [OF k])
      have d': "(k = CHR '']'' \<and> v = JArr [] \<and> r @ u = r0 @ u)
             \<or> (k \<noteq> CHR '']'' \<and> (\<exists>vs. parse_elems n (k # (r0 @ u)) = Some (vs, r @ u) \<and> v = JArr vs))"
        using d E [of "k # r0"] by auto
      show ?thesis unfolding Cons 2 append_Cons
        by (rule iffD2 [OF parse_value_arr_iff]) (use k' d' in blast)
    next
      case 3
      show ?thesis unfolding Cons append_Cons
        by (rule parse_value_flat_append [OF a [unfolded Cons] 3 nn])
    qed
  qed
  have 2: "parse_elems (Suc n) (t @ u) = Some (vs, r @ u)" if a: "parse_elems (Suc n) t = Some (vs, r)"
  proof -
    from a [unfolded parse_elems_iff] obtain v0 r0 c r'
      where p: "parse_value n t = Some (v0, r0)" "skip_ws r0 = c # r'"
        and d: "(c = CHR '','' \<and> (\<exists>vs0. parse_elems n (skip_ws r') = Some (vs0, r) \<and> vs = v0 # vs0))
             \<or> (c = CHR '']'' \<and> vs = [v0] \<and> r = r')"
      by blast
    have r0: "r0 \<noteq> []" using p(2) by (auto simp add: skip_ws_def)
    have p1: "parse_value n (t @ u) = Some (v0, r0 @ u)" by (rule V [OF p(1) r0])
    have p2: "skip_ws (r0 @ u) = c # (r' @ u)" by (rule skip_ws_append_Cons [OF p(2)])
    have d': "(c = CHR '','' \<and> (\<exists>vs0. parse_elems n (skip_ws (r' @ u)) = Some (vs0, r @ u) \<and> vs = v0 # vs0))
             \<or> (c = CHR '']'' \<and> vs = [v0] \<and> r @ u = r' @ u)"
    proof (cases "c = CHR '',''")
      case True
      with d obtain vs0 where e: "parse_elems n (skip_ws r') = Some (vs0, r)" "vs = v0 # vs0" by auto
      have "skip_ws r' \<noteq> []" using e(1) by (auto simp add: parse_elems_Nil)
      then have "skip_ws (r' @ u) = skip_ws r' @ u" by (rule skip_ws_append)
      then show ?thesis using True E [OF e(1)] e(2) by simp
    next
      case False
      then show ?thesis using d by auto
    qed
    show ?thesis
      by (rule iffD2 [OF parse_elems_iff]) (use p1 p2 d' in blast)
  qed
  have 3: "parse_members (Suc n) (t @ u) = Some (ms, r @ u)" if a: "parse_members (Suc n) t = Some (ms, r)"
  proof -
    from a [unfolded parse_members_iff] obtain cs raw q key r1 v0 r2 c r3
      where p: "t = dq # cs" "scan_string cs = Some (raw, q)" "unquote raw = Some key"
        "skip_ws q = CHR '':'' # r1" "parse_value n (skip_ws r1) = Some (v0, r2)"
        "skip_ws r2 = c # r3"
        and d: "(c = CHR '','' \<and> (\<exists>ms0. parse_members n (skip_ws r3) = Some (ms0, r) \<and> ms = (key, v0) # ms0))
             \<or> (c = CHR 0x7D \<and> ms = [(key, v0)] \<and> r = r3)"
      by blast
    have q1: "t @ u = dq # (cs @ u)" by (simp add: p(1))
    have q2: "scan_string (cs @ u) = Some (raw, q @ u)" by (rule scan_string_append [OF p(2)])
    have q4: "skip_ws (q @ u) = CHR '':'' # (r1 @ u)" by (rule skip_ws_append_Cons [OF p(4)])
    have "skip_ws r1 \<noteq> []" using p(5) by (auto simp add: parse_value_Nil)
    then have s1: "skip_ws (r1 @ u) = skip_ws r1 @ u" by (rule skip_ws_append)
    have r2: "r2 \<noteq> []" using p(6) by (auto simp add: skip_ws_def)
    have q5: "parse_value n (skip_ws (r1 @ u)) = Some (v0, r2 @ u)"
      unfolding s1 by (rule V [OF p(5) r2])
    have q6: "skip_ws (r2 @ u) = c # (r3 @ u)" by (rule skip_ws_append_Cons [OF p(6)])
    have d': "(c = CHR '','' \<and> (\<exists>ms0. parse_members n (skip_ws (r3 @ u)) = Some (ms0, r @ u) \<and> ms = (key, v0) # ms0))
             \<or> (c = CHR 0x7D \<and> ms = [(key, v0)] \<and> r @ u = r3 @ u)"
    proof (cases "c = CHR '',''")
      case True
      with d obtain ms0 where e: "parse_members n (skip_ws r3) = Some (ms0, r)" "ms = (key, v0) # ms0" by auto
      have "skip_ws r3 \<noteq> []" using e(1) by (auto simp add: parse_members_Nil)
      then have "skip_ws (r3 @ u) = skip_ws r3 @ u" by (rule skip_ws_append)
      then show ?thesis using True M [OF e(1)] e(2) by simp
    next
      case False
      then show ?thesis using d by auto
    qed
    show ?thesis
      by (rule iffD2 [OF parse_members_iff]) (use q1 q2 p(3) q4 q5 q6 d' in blast)
  qed
  show ?case using 1 2 3 by blast
qed

lemma parse_value_records:
  assumes "rs \<noteq> []"
  shows "parse_value (Suc (length (CHR ''['' # LF # encode_records rs @ '']'')))
           (CHR ''['' # LF # encode_records rs @ '']'') = Some (JArr (map jrec rs), [])"
proof -
  let ?data = "CHR ''['' # LF # encode_records rs @ '']''"
  obtain n where n: "length (encode_records rs) = length rs + 4 + n"
    using length_encode_records [OF assms] le_Suc_ex by blast
  have len: "length ?data = Suc (Suc (Suc (Suc (length rs + (n + 3)))))"
    by (simp add: n)
  obtain t where kt: "skip_ws (encode_records rs @ '']'') = CHR 0x7B # t"
    using skip_ws_records [OF assms] by blast
  have pe: "parse_elems (Suc (Suc (Suc (Suc (length rs + (n + 3))))))
              (skip_ws (encode_records rs @ CHR '']'' # [])) = Some (map jrec rs, [])"
    by (rule parse_elems_records [OF assms])
  show ?thesis
    unfolding len
    by (subst parse_value.simps(2))
       (use pe in \<open>simp add: skip_ws_simps kt del: parse_value.simps parse_elems.simps\<close>)
qed

lemma Unmarshal_syntax:
  assumes "\<And>v rest. parse_value (Suc (length data)) (skip_ws data) = Some (v, rest) \<Longrightarrow> skip_ws rest \<noteq> []"
  shows "Unmarshal data = Inl SyntaxError"
proof (cases "parse_value (Suc (length data)) (skip_ws data)")
  case None
  then show ?thesis by (simp add: Unmarshal_def del: parse_value.simps)
next
  case (Some x)
  obtain v rest where x: "x = (v, rest)" by (cases x)
  from assms [OF Some [unfolded x]] show ?thesis
    by (simp add: Unmarshal_def Some x del: parse_value.simps)
qed

lemma Unmarshal_truncated_records:
  assumes "rs \<noteq> []" and k: "k < length (CHR ''['' # LF # encode_records rs @ '']'')"
  shows "Unmarshal (take k (CHR ''['' # LF # encode_records rs @ '']'')) = Inl SyntaxError"
proof (rule Unmarshal_syntax)
  let ?data = "CHR ''['' # LF # encode_records rs @ '']''"
  let ?t = "take k ?data"
  fix v rest
  assume p: "parse_value (Suc (length ?t)) (skip_ws ?t) = Some (v, rest)"
  show "skip_ws rest \<noteq> []"
  proof (cases k)
    case 0
    then show ?thesis using p by (simp add: skip_ws_simps)
  next
    case (Suc k')
    have t: "?t = CHR ''['' # take k' (LF # encode_records rs @ '']'')"
      by (simp add: Suc)
    have sk: "skip_ws ?t = ?t"
      unfolding t by (simp add: skip_ws_def isSpace_def LF_def CR_def TAB_def)
    from p have p': "parse_value (Suc (length ?t)) ?t = Some (v, rest)"
      unfolding sk .
    have arr: "\<forall>lit. v \<noteq> JNum lit"
      using p' [unfolded t parse_value_arr_iff] by auto
    have "parse_value (Suc (length ?data)) ?t = Some (v, rest)"
      by (rule parse_value_fuel [OF p']) simp
    then have "parse_value (Suc (length ?data)) (?t @ drop k ?data) = Some (v, rest @ drop k ?data)"
      using parse_append [of "Suc (length ?data)" ?t v rest "drop k ?data"] arr by blast
    then have "parse_value (Suc (length ?data)) ?data = Some (v, rest @ drop k ?data)"
      by (simp only: append_take_drop_id)
    with parse_value_records [OF assms(1)]
    have "Some (v, rest @ drop k ?data) = Some (JArr (map jrec rs), [])"
      by (simp only:)
    then have "rest @ drop k ?data = []"
      by (simp only: option.inject prod.inject)
    then have "drop k ?data = []" by simp
    with k show ?thesis by simp
  qed
qed

lemma Unmarshal_truncated:
  assumes "MarshalIndent rs = Inr data" "k < length data"
  shows "Unmarshal (take k data) = Inl SyntaxError"
proof (cases "rs = []")
  case True
  then have d: "data = ''null''" using assms(1) by (simp add: MarshalIndent_def)
  from assms(2) have "k \<in> {0, 1, 2, 3}" unfolding d by auto
  then show ?thesis unfolding d
    by (auto simp add: Unmarshal_def skip_ws_def isSpace_def LF_def CR_def TAB_def dq_def isDigit_def byte_def)
next
  case False
  then have d: "data = CHR ''['' # LF # encode_records rs @ '']''"
    using assms(1) by (simp add: MarshalIndent_def)
  show ?thesis using Unmarshal_truncated_records [OF False] assms(2) unfolding d by blast
qed

lemma ledger_truncated:
  assumes "MarshalIndent rs = Inr data" "k < length data"
  shows "ledger s (WriteFile_upto k s data fs) = None"
  by (simp add: ledger_def WriteFile_upto_def Unmarshal_truncated [OF assms])

lemma readExisting_valid:
  assumes "readExisting s fs = Inr l"
  shows "map coerce l = l"
proof (rule map_coerce_valid)
  from assms consider "l = []" | data where "Unmarshal data = Inr l"
    by (auto simp add: readExisting_def split: sum.splits)
  then show "\<forall>r \<in> set l. ValidString (Path r)"
    by cases (auto dest: Unmarshal_valid)
qed

lemma writeUpdated_fails:
  assumes "MarshalIndent rs = Inr data" "write_fault fs s = Some (WriteFails e k)"
  shows "writeUpdated rs s fs = (FailedToWriteStorage e, WriteFile_upto k s data fs)"
  using assms by (simp add: writeUpdated_def WriteFile_def)

lemma writeUpdated_open_fails:
  assumes "write_fault fs s = Some (OpenFails e)"
  shows "writeUpdated rs s fs = (FailedToWriteStorage e, fs)"
  using assms by (simp add: writeUpdated_def WriteFile_def MarshalIndent_def)

lemma ledger_complete:
  assumes "MarshalIndent rs = Inr data" "length data \<le> k"
  shows "ledger s (WriteFile_upto k s data fs) = Some (map coerce rs)"
  using assms Unmarshal_MarshalIndent [OF assms(1)] by (simp add: ledger_def WriteFile_upto_def)

lemma readExisting_examples:
  "readExisting ''db.json'' interrupted = Inr one_record"
  "readExisting ''db.json'' close_fails = Inr one_record"
proof -
  have l: "ledger ''db.json'' fs = Some one_record"
    if "files fs ''db.json'' = Some (projr (MarshalIndent one_record))" for fs
  proof -
    have "ledger ''db.json'' fs = Some (map coerce one_record)"
      using that by (simp add: ledger_def Unmarshal_projr)
    then show ?thesis by (simp add: one_record_def coerce_ascii_examples)
  qed
  show "readExisting ''db.json'' interrupted = Inr one_record"
    by (rule existing_data [OF _ _ l]) (simp_all add: interrupted_def plain_fs_def)
  show "readExisting ''db.json'' close_fails = Inr one_record"
    by (rule existing_data [OF _ _ l]) (simp_all add: close_fails_def plain_fs_def)
qed

lemma two_records_append: "one_record @ [\<lparr>Path = ''b.txt'', Size = 2\<rparr>] = two_records"
  by (simp add: one_record_def two_records_def)

lemma MarshalIndent_nonempty: "0 < length (projr (MarshalIndent rs))"
  by (simp add: MarshalIndent_def)

lemma MarshalIndent_long: "1 < length (projr (MarshalIndent rs))"
  by (simp add: MarshalIndent_def)

section \<open>Lemmas on the pipeline\<close>

lemma wanted_bits: "wanted event \<longleftrightarrow> bit (Op event) 0 \<or> bit (Op event) 1"
proof -
  have a: "and w (1 :: 32 word) = 1 \<longleftrightarrow> bit w 0" for w :: "32 word"
    by (simp add: and_one_eq bit_0 mod_2_eq_odd)
  have b: "and w (2 :: 32 word) = 2 \<longleftrightarrow> bit w 1" for w :: "32 word"
  proof
    assume "and w 2 = 2"
    then have "bit (and w 2) 1 = bit (2 :: 32 word) 1" by simp
    then show "bit w 1" by (simp add: bit_and_iff bit_simps)
  next
    assume w: "bit w 1"
    show "and w 2 = 2"
      by (rule bit_eqI) (use w in \<open>auto simp add: bit_and_iff bit_simps\<close>)
  qed
  show ?thesis by (simp add: wanted_def Create_def Write_def a b)
qed



lemma reachable_capacity:
  assumes "rtranclp step (start level location notifications fs) p"
  shows "length (fileChan p) \<le> level \<and> ConcurrencyLevel p = level"
  using assms
proof (induction rule: rtranclp_induct)
  case base
  show ?case by (simp add: start_def)
next
  case (step p p')
  from step(2) step(3) show ?case
    by (induction rule: step.induct) auto
qed

lemma step_pending:
  assumes "step p p'"
  shows "pending p' = pending p
         \<or> (\<exists>path. fileChan p = path # fileChan p' \<and> pending p = path # pending p' \<and> 0 < wg p)"
  using assms by (induction rule: step.induct) (simp_all add: pending_def)

lemma reachable_pending:
  assumes "rtranclp step (start level location notifications fs) p"
  shows "\<exists>taken. wanted_names notifications = taken @ pending p"
  using assms
proof (induction rule: rtranclp_induct)
  case base
  show ?case by (simp add: start_def pending_def)
next
  case (step p p')
  from step(3) obtain taken where t: "wanted_names notifications = taken @ pending p" by blast
  from step_pending [OF step(2)] show ?case
  proof
    assume "pending p' = pending p"
    then show ?thesis using t by auto
  next
    assume "\<exists>path. fileChan p = path # fileChan p' \<and> pending p = path # pending p' \<and> 0 < wg p"
    then obtain path where "pending p = path # pending p'" by blast
    then have "wanted_names notifications = (taken @ [path]) @ pending p'" using t by simp
    then show ?thesis by blast
  qed
qed

lemma step_source:
  assumes "step p p'" "source p = OnEvents event # rest" "source p' \<noteq> source p"
  shows "source p' = rest \<and> sending p' = (if wanted event then Some (Name event) else None)
         \<and> fileChan p' = fileChan p"
  using assms by (induction rule: step.induct) auto


lemma wanted_examples: "wanted created_a" "wanted written_b" "\<not> wanted removed_c"
  by (simp_all add: wanted_def created_a_def written_b_def removed_c_def Create_def Write_def)

lemma event_names: "Name created_a = ''a.txt''" "Name written_b = ''b.txt''"
  by (simp_all add: created_a_def written_b_def)




lemma pipe_facts:
  "exitCode pipe0 = None" "dispatching pipe0" "sending pipe0 = None" "\<not> watcherClosed pipe0"
  "source pipe0 = OnEvents created_a # [OnEvents written_b]" "fileChan pipe0 = []"
  "exitCode pipe1 = None" "\<not> chanClosed pipe1" "sending pipe1 = Some ''a.txt''"
  "fileChan pipe1 = []" "ConcurrencyLevel pipe1 = 1" "source pipe1 = [OnEvents written_b]"
  "exitCode pipe2 = None" "dispatching pipe2" "sending pipe2 = None" "\<not> watcherClosed pipe2"
  "source pipe2 = OnEvents written_b # []" "fileChan pipe2 = [''a.txt'']"
  "exitCode pipe3 = None" "sending pipe3 = Some ''b.txt''" "fileChan pipe3 = [''a.txt'']"
  "ConcurrencyLevel pipe3 = 1" "StorageLocation pipe3 = ''db.json''"
  "disk pipe3 = plain_fs Map.empty" "source pipe3 = []" "wg pipe3 = 1"
  "fileChan pipe4 = []" "sending pipe4 = Some ''b.txt''" "source pipe4 = []"
  by (simp_all add: pipe4_def pipe3_def pipe2_def pipe1_def pipe0_def start_def)

lemma pipe_steps: "step pipe0 pipe1" "step pipe1 pipe2" "step pipe2 pipe3" "step pipe3 pipe4"
proof -
  have "step pipe0 (pipe0\<lparr>source := [OnEvents written_b],
          sending := (if wanted created_a then Some (Name created_a) else None)\<rparr>)"
    by (rule receive_event) (rule pipe_facts)+
  then show "step pipe0 pipe1" by (simp add: pipe1_def wanted_examples event_names)
  have "step pipe1 (pipe1\<lparr>fileChan := fileChan pipe1 @ [''a.txt''], sending := None\<rparr>)"
    by (rule send) (simp_all add: pipe_facts)
  then show "step pipe1 pipe2" by (simp add: pipe2_def pipe_facts)
  have "step pipe2 (pipe2\<lparr>source := [],
          sending := (if wanted written_b then Some (Name written_b) else None)\<rparr>)"
    by (rule receive_event) (rule pipe_facts)+
  then show "step pipe2 pipe3" by (simp add: pipe3_def wanted_examples event_names)
  have "step pipe3 (pipe3\<lparr>fileChan := [],
          disk := snd (processFile ''a.txt'' (StorageLocation pipe3) (disk pipe3))\<rparr>)"
    by (rule process) (simp_all add: pipe_facts)
  then show "step pipe3 pipe4"
    by (simp add: pipe4_def pipe_facts)
qed

lemma pipe_pending:
  "wanted_names [OnEvents created_a, OnEvents written_b] = [''a.txt'', ''b.txt'']"
  "pending pipe0 = [''a.txt'', ''b.txt'']" "pending pipe1 = [''a.txt'', ''b.txt'']"
  "pending pipe3 = [''a.txt'', ''b.txt'']" "pending pipe4 = [''b.txt'']"
  by (simp_all add: pending_def pipe_facts wanted_examples event_names)

section \<open>Failure of the metadata query\<close>



section \<open>The round trip through the file\<close>

text \<open>
  Claim C9 says that serializing any ledger and deserializing the result yields the
  same records. It fails for a path that is not well-formed UTF-8, which a file name
  may be: the encoder writes the byte FF as the escape of U+FFFD, and the decoder
  returns the three bytes EF BF BD.
\<close>

theorem roundtrip_invalid_utf8_counterexample:
  "Unmarshal (projr (MarshalIndent [\<lparr>Path = [CHR 0xFF], Size = 7\<rparr>]))
     = Inr [\<lparr>Path = [CHR 0xEF, CHR 0xBF, CHR 0xBD], Size = 7\<rparr>]
   \<and> Unmarshal (projr (MarshalIndent [\<lparr>Path = [CHR 0xFF], Size = 7\<rparr>]))
     \<noteq> Inr [\<lparr>Path = [CHR 0xFF], Size = 7\<rparr>]"
  by (simp add: Unmarshal_projr coerce_def ToValidUTF8_FF)

text \<open>
  Claim C9, amended: serializing a ledger whose paths are well-formed UTF-8 gives bytes
  (the encoder does not fail), and deserializing them yields the identical sequence of
  records, whatever the sizes.
\<close>

theorem marshal_unmarshal_roundtrip:
  assumes "\<forall>r \<in> set rs. ValidString (Path r)"
  shows "\<exists>data. MarshalIndent rs = Inr data \<and> Unmarshal data = Inr rs"
proof -
  have "Unmarshal (projr (MarshalIndent rs)) = Inr (map coerce rs)"
    by (rule Unmarshal_projr)
  also have "map coerce rs = rs"
    using assms by (rule map_coerce_valid)
  finally show ?thesis
    using MarshalIndent_Inr [of rs] by blast
qed

theorem marshal_unmarshal_roundtrip_witness:
  "ValidString ''a.txt'' \<and> ValidString [CHR 0xC3, CHR 0xA9]
   \<and> Unmarshal (projr (MarshalIndent [\<lparr>Path = ''a.txt'', Size = 5\<rparr>, \<lparr>Path = [CHR 0xC3, CHR 0xA9], Size = 0\<rparr>]))
       = Inr [\<lparr>Path = ''a.txt'', Size = 5\<rparr>, \<lparr>Path = [CHR 0xC3, CHR 0xA9], Size = 0\<rparr>]"
proof -
  let ?l = "[\<lparr>Path = ''a.txt'', Size = 5 :: 64 word\<rparr>, \<lparr>Path = [CHR 0xC3, CHR 0xA9], Size = 0\<rparr>]"
  have h: "\<forall>r \<in> set ?l. ValidString (Path r)"
    by (simp add: ValidString_examples ValidString_e_acute)
  from marshal_unmarshal_roundtrip [OF h]
  obtain data where "MarshalIndent ?l = Inr data" "Unmarshal data = Inr ?l" by blast
  then have "Unmarshal (projr (MarshalIndent ?l)) = Inr ?l" by simp
  then show ?thesis by (simp add: ValidString_examples ValidString_e_acute)
qed

section \<open>Cold start\<close>

text \<open>
  Claim C5. When no file exists at the storage location (and the write goes through),
  the append starts from the empty ledger, logs nothing, and leaves a ledger of exactly
  one record: the record appended, with its path as the file holds it.
\<close>

theorem cold_start_single_record:
  assumes "files fs storageLocation = None" and "write_fault fs storageLocation = None"
  shows "ledger storageLocation fs = Some []
         \<and> fst (appendRecord r storageLocation fs) = Stored
         \<and> ledger storageLocation (snd (appendRecord r storageLocation fs)) = Some [coerce r]
         \<and> length [coerce r] = 1"
proof -
  have "appendRecord r storageLocation fs
        = (Stored, fs\<lparr>files := (files fs)(storageLocation \<mapsto> projr (MarshalIndent [r]))\<rparr>)"
    by (simp add: appendRecord_def readExisting_absent [OF assms(1)] writeUpdated_stored [OF assms(2)])
  then show ?thesis
    using assms(1) by (simp add: ledger_written) (simp add: ledger_def)
qed

theorem cold_start_single_record_witness:
  "files (plain_fs Map.empty) ''db.json'' = None
   \<and> write_fault (plain_fs Map.empty) ''db.json'' = None
   \<and> fst (appendRecord \<lparr>Path = ''a.txt'', Size = 5\<rparr> ''db.json'' (plain_fs Map.empty)) = Stored
   \<and> ledger ''db.json'' (snd (appendRecord \<lparr>Path = ''a.txt'', Size = 5\<rparr> ''db.json'' (plain_fs Map.empty)))
       = Some [\<lparr>Path = ''a.txt'', Size = 5\<rparr>]"
proof -
  have h: "files (plain_fs Map.empty) ''db.json'' = None"
    "write_fault (plain_fs Map.empty) ''db.json'' = None"
    by (simp_all add: plain_fs_def)
  from cold_start_single_record [OF h, of "\<lparr>Path = ''a.txt'', Size = 5\<rparr>"] h
  show ?thesis by (simp add: coerce_ascii_examples)
qed

section \<open>An error of the existence check\<close>

text \<open>
  Claim C10. When \<^verbatim>\<open>os.Stat\<close> of the storage location fails, with whatever error,
  the existing file is not read: the append takes the ledger as empty, logs nothing,
  and (the write going through) overwrites the file with a ledger of the one new
  record, whatever the file held before.
\<close>

theorem stat_error_overwrites_ledger:
  assumes "stat_fault fs storageLocation = Some e" and "write_fault fs storageLocation = None"
  shows "appendRecord r storageLocation fs
           = (Stored, fs\<lparr>files := (files fs)(storageLocation \<mapsto> projr (MarshalIndent [r]))\<rparr>)
         \<and> ledger storageLocation (snd (appendRecord r storageLocation fs)) = Some [coerce r]"
proof -
  have "appendRecord r storageLocation fs
        = (Stored, fs\<lparr>files := (files fs)(storageLocation \<mapsto> projr (MarshalIndent [r]))\<rparr>)"
    by (simp add: appendRecord_def readExisting_stat_fault [OF assms(1)] writeUpdated_stored [OF assms(2)])
  then show ?thesis by (simp add: ledger_written)
qed

theorem stat_error_overwrites_ledger_witness:
  "stat_fault stat_denied ''db.json'' = Some EACCES
   \<and> write_fault stat_denied ''db.json'' = None
   \<and> ledger ''db.json'' stat_denied
       = Some [\<lparr>Path = ''a.txt'', Size = 5\<rparr>, \<lparr>Path = ''b.txt'', Size = 2\<rparr>]
   \<and> fst (appendRecord \<lparr>Path = ''a.txt'', Size = 9\<rparr> ''db.json'' stat_denied) = Stored
   \<and> ledger ''db.json'' (snd (appendRecord \<lparr>Path = ''a.txt'', Size = 9\<rparr> ''db.json'' stat_denied))
       = Some [\<lparr>Path = ''a.txt'', Size = 9\<rparr>]"
proof -
  have h: "stat_fault stat_denied ''db.json'' = Some EACCES"
    "write_fault stat_denied ''db.json'' = None"
    by (simp_all add: stat_denied_def plain_fs_def)
  from stat_error_overwrites_ledger [OF h, of "\<lparr>Path = ''a.txt'', Size = 9\<rparr>"] h ledger_stat_denied
  show ?thesis by (simp add: coerce_ascii_examples two_records_def ledger_written)
qed

section \<open>Failures of the store\<close>

text \<open>
  Claim C3 says that a write failure leaves the prior ledger unchanged. It fails when
  the write stops after the file was opened: here the disk is full, no byte is written,
  and the file that held one record is left empty, which is no ledger.
\<close>

theorem write_failure_loses_ledger_counterexample:
  "ledger ''db.json'' disk_full = Some [\<lparr>Path = ''a.txt'', Size = 5\<rparr>]
   \<and> fst (appendRecord \<lparr>Path = ''b.txt'', Size = 2\<rparr> ''db.json'' disk_full)
       = FailedToWriteStorage ENOSPC
   \<and> files (snd (appendRecord \<lparr>Path = ''b.txt'', Size = 2\<rparr> ''db.json'' disk_full)) ''db.json''
       = Some []
   \<and> ledger ''db.json'' (snd (appendRecord \<lparr>Path = ''b.txt'', Size = 2\<rparr> ''db.json'' disk_full))
       = None"
proof -
  have l: "ledger ''db.json'' disk_full = Some (map coerce one_record)"
    by (simp add: disk_full_def plain_fs_def ledger_def Unmarshal_projr)
  then have l': "ledger ''db.json'' disk_full = Some one_record"
    by (simp add: one_record_def coerce_ascii_examples)
  have r: "readExisting ''db.json'' disk_full = Inr one_record"
    by (rule existing_data [OF _ _ l']) (simp_all add: disk_full_def plain_fs_def)
  have a: "appendRecord \<lparr>Path = ''b.txt'', Size = 2\<rparr> ''db.json'' disk_full
           = (FailedToWriteStorage ENOSPC,
              disk_full\<lparr>files := (files disk_full)(''db.json'' \<mapsto> [])\<rparr>)"
    unfolding appendRecord_def r
    by (subst writeUpdated_def, subst MarshalIndent_Inr)
       (simp add: WriteFile_def WriteFile_upto_def disk_full_def plain_fs_def)
  show ?thesis
    using l' by (simp add: a one_record_def ledger_def Unmarshal_empty)
qed

text \<open>
  Claim C3, amended. When the existing file does not parse, or the file cannot be
  opened for writing, the append logs the failure, persists nothing and leaves the file
  system, and so the ledger, as it was; the call returns, so the worker continues. When
  the write fails after the file was opened, the call logs the failure and the file
  holds the first \<open>k\<close> bytes of the serialization of the prior ledger with the record
  appended. If the failure comes before the last byte, that file does not parse: the
  prior ledger is lost and no ledger is left. If it comes after the last byte (an error
  at closing the file), the file holds the prior ledger with the record appended,
  although the failure is logged.
\<close>

theorem store_error_outcomes:
  "(stat_fault fs s = None \<longrightarrow> read_fault fs s = None \<longrightarrow> files fs s = Some data
      \<longrightarrow> Unmarshal data = Inl e
      \<longrightarrow> appendRecord r s fs = (FailedToUnmarshal e, fs))
   \<and> (readExisting s fs = Inr l \<longrightarrow> write_fault fs s = Some (OpenFails err)
      \<longrightarrow> appendRecord r s fs = (FailedToWriteStorage err, fs))
   \<and> (readExisting s fs = Inr l \<longrightarrow> write_fault fs s = Some (WriteFails err k)
      \<longrightarrow> appendRecord r s fs
          = (FailedToWriteStorage err,
             fs\<lparr>files := (files fs)(s \<mapsto> take k (projr (MarshalIndent (l @ [r]))))\<rparr>)
        \<and> (k < length (projr (MarshalIndent (l @ [r])))
             \<longrightarrow> ledger s (snd (appendRecord r s fs)) = None)
        \<and> (length (projr (MarshalIndent (l @ [r]))) \<le> k
             \<longrightarrow> ledger s (snd (appendRecord r s fs)) = Some (l @ [coerce r])))"
proof (intro conjI impI)
  assume "stat_fault fs s = None" "read_fault fs s = None" "files fs s = Some data"
    "Unmarshal data = Inl e"
  then show "appendRecord r s fs = (FailedToUnmarshal e, fs)"
    by (simp add: appendRecord_def readExisting_def Stat_def ReadFile_def)
next
  assume "readExisting s fs = Inr l" "write_fault fs s = Some (OpenFails err)"
  then show "appendRecord r s fs = (FailedToWriteStorage err, fs)"
    by (simp add: appendRecord_def writeUpdated_open_fails)
next
  let ?data = "projr (MarshalIndent (l @ [r]))"
  assume a: "readExisting s fs = Inr l" "write_fault fs s = Some (WriteFails err k)"
  have w: "appendRecord r s fs = (FailedToWriteStorage err, WriteFile_upto k s ?data fs)"
    by (simp add: appendRecord_def a(1) writeUpdated_fails [OF MarshalIndent_Inr a(2)])
  then show "appendRecord r s fs
          = (FailedToWriteStorage err, fs\<lparr>files := (files fs)(s \<mapsto> take k ?data)\<rparr>)"
    by (simp add: WriteFile_upto_def)
  show "ledger s (snd (appendRecord r s fs)) = None" if "k < length ?data"
    unfolding w snd_conv by (rule ledger_truncated [OF MarshalIndent_Inr that])
  show "ledger s (snd (appendRecord r s fs)) = Some (l @ [coerce r])" if "length ?data \<le> k"
    unfolding w snd_conv
    using ledger_complete [OF MarshalIndent_Inr that, of s fs] readExisting_valid [OF a(1)]
    by simp
qed

theorem store_error_outcomes_witness:
  "Unmarshal ''oops'' = Inl SyntaxError
   \<and> appendRecord \<lparr>Path = ''b.txt'', Size = 2\<rparr> ''db.json'' unparsable
       = (FailedToUnmarshal SyntaxError, unparsable)
   \<and> write_fault open_denied ''db.json'' = Some (OpenFails EACCES)
   \<and> appendRecord \<lparr>Path = ''b.txt'', Size = 2\<rparr> ''db.json'' open_denied
       = (FailedToWriteStorage EACCES, open_denied)
   \<and> write_fault disk_full ''db.json'' = Some (WriteFails ENOSPC 0)
   \<and> 0 < length (projr (MarshalIndent two_records))
   \<and> appendRecord \<lparr>Path = ''b.txt'', Size = 2\<rparr> ''db.json'' disk_full
       = (FailedToWriteStorage ENOSPC, disk_full\<lparr>files := (files disk_full)(''db.json'' \<mapsto> [])\<rparr>)
   \<and> ledger ''db.json'' (snd (appendRecord \<lparr>Path = ''b.txt'', Size = 2\<rparr> ''db.json'' disk_full))
       = None
   \<and> write_fault close_fails ''db.json''
       = Some (WriteFails EIO (length (projr (MarshalIndent two_records))))
   \<and> fst (appendRecord \<lparr>Path = ''b.txt'', Size = 2\<rparr> ''db.json'' close_fails)
       = FailedToWriteStorage EIO
   \<and> ledger ''db.json'' (snd (appendRecord \<lparr>Path = ''b.txt'', Size = 2\<rparr> ''db.json'' close_fails))
       = Some [\<lparr>Path = ''a.txt'', Size = 5\<rparr>, \<lparr>Path = ''b.txt'', Size = 2\<rparr>]"
proof -
  let ?b = "\<lparr>Path = ''b.txt'', Size = 2\<rparr> :: FileData"
  note T = store_error_outcomes
  have u: "stat_fault unparsable ''db.json'' = None" "read_fault unparsable ''db.json'' = None"
    "files unparsable ''db.json'' = Some ''oops''"
    by (simp_all add: unparsable_def plain_fs_def)
  have 1: "appendRecord ?b ''db.json'' unparsable = (FailedToUnmarshal SyntaxError, unparsable)"
    using T [where fs = unparsable and s = "''db.json''" and data = "''oops''"
        and e = SyntaxError and r = ?b, THEN conjunct1] u Unmarshal_oops by blast
  have o: "readExisting ''db.json'' open_denied = Inr []"
    "write_fault open_denied ''db.json'' = Some (OpenFails EACCES)"
    by (simp_all add: readExisting_absent open_denied_def plain_fs_def)
  have 2: "appendRecord ?b ''db.json'' open_denied = (FailedToWriteStorage EACCES, open_denied)"
    using T [where fs = open_denied and s = "''db.json''" and l = "[]"
        and err = EACCES and r = ?b, THEN conjunct2, THEN conjunct1] o by blast
  have d: "write_fault disk_full ''db.json'' = Some (WriteFails ENOSPC 0)"
    by (simp add: disk_full_def plain_fs_def)
  have n: "0 < length (projr (MarshalIndent two_records))"
    by (rule MarshalIndent_nonempty)
  note D = T [where fs = disk_full and s = "''db.json''" and l = one_record
        and err = ENOSPC and k = 0 and r = ?b, THEN conjunct2, THEN conjunct2,
        unfolded two_records_append, rule_format, OF readExisting_disk_full d]
  have 3: "appendRecord ?b ''db.json'' disk_full
       = (FailedToWriteStorage ENOSPC, disk_full\<lparr>files := (files disk_full)(''db.json'' \<mapsto> [])\<rparr>)"
    using D [THEN conjunct1] by simp
  have 4: "ledger ''db.json'' (snd (appendRecord ?b ''db.json'' disk_full)) = None"
    using D [THEN conjunct2, THEN conjunct1] n by blast
  have c: "write_fault close_fails ''db.json''
       = Some (WriteFails EIO (length (projr (MarshalIndent two_records))))"
    by (simp add: close_fails_def plain_fs_def)
  note C = T [where fs = close_fails and s = "''db.json''" and l = one_record
        and err = EIO and k = "length (projr (MarshalIndent two_records))" and r = ?b,
        THEN conjunct2, THEN conjunct2,
        unfolded two_records_append, rule_format, OF readExisting_examples(2) c]
  have 5: "fst (appendRecord ?b ''db.json'' close_fails) = FailedToWriteStorage EIO"
    using C [THEN conjunct1] by simp
  have "ledger ''db.json'' (snd (appendRecord ?b ''db.json'' close_fails))
        = Some (one_record @ [coerce ?b])"
    using C [THEN conjunct2, THEN conjunct2] by blast
  then have 6: "ledger ''db.json'' (snd (appendRecord ?b ''db.json'' close_fails))
       = Some [\<lparr>Path = ''a.txt'', Size = 5\<rparr>, \<lparr>Path = ''b.txt'', Size = 2\<rparr>]"
    by (simp add: one_record_def coerce_ascii_examples)
  show ?thesis
    using Unmarshal_oops 1 o(2) 2 d n 3 4 c 5 6 by blast
qed

section \<open>The write of the updated ledger\<close>

text \<open>
  Claim C2 says that the updated ledger is written to a staging location and promoted
  over the previous file, so that an interrupted write never leaves the committed file
  partial. The program calls \<^verbatim>\<open>ioutil.WriteFile\<close> on the storage location itself:
  here the file holds one record, \<^verbatim>\<open>b.txt\<close> is notified, and the write of the
  two-record ledger is interrupted at byte offset 1. \<^verbatim>\<open>processFile\<close> logs the failure
  and leaves the bracket alone in the file, which does not parse.
\<close>

theorem interrupted_write_counterexample:
  "ledger ''db.json'' interrupted = Some [\<lparr>Path = ''a.txt'', Size = 5\<rparr>]
   \<and> processFile ''b.txt'' ''db.json'' interrupted
       = (FailedToWriteStorage EIO, interrupted\<lparr>files := (files interrupted)(''db.json'' \<mapsto> ''['')\<rparr>)
   \<and> ledger ''db.json'' (snd (processFile ''b.txt'' ''db.json'' interrupted)) = None"
proof -
  have "ledger ''db.json'' interrupted = Some (map coerce one_record)"
    by (simp add: interrupted_def plain_fs_def ledger_def Unmarshal_projr)
  then have l: "ledger ''db.json'' interrupted = Some [\<lparr>Path = ''a.txt'', Size = 5\<rparr>]"
    by (simp add: one_record_def coerce_ascii_examples)
  have st: "Stat ''b.txt'' interrupted = Inr 2"
    by (simp add: Stat_def interrupted_def plain_fs_def)
  have wf: "write_fault interrupted ''db.json'' = Some (WriteFails EIO 1)"
    by (simp add: interrupted_def plain_fs_def)
  have p: "processFile ''b.txt'' ''db.json'' interrupted
        = (FailedToWriteStorage EIO,
           WriteFile_upto 1 ''db.json'' (projr (MarshalIndent two_records)) interrupted)"
    by (simp add: processFile_def st appendRecord_def readExisting_examples two_records_append
          writeUpdated_fails [OF MarshalIndent_Inr wf])
  have t: "take (Suc 0) (projr (MarshalIndent two_records)) = ''[''"
    by (simp add: MarshalIndent_def two_records_def)
  have l2: "ledger ''db.json'' (snd (processFile ''b.txt'' ''db.json'' interrupted)) = None"
    by (simp add: p WriteFile_upto_def t ledger_def Unmarshal_bracket)
  have "processFile ''b.txt'' ''db.json'' interrupted
       = (FailedToWriteStorage EIO, interrupted\<lparr>files := (files interrupted)(''db.json'' \<mapsto> ''['')\<rparr>)"
    by (simp add: p WriteFile_upto_def t)
  then show ?thesis using l l2 by blast
qed

text \<open>
  Claim C2, amended. The write of the updated ledger is in place and touches no other
  file: there is no staging location and no promotion. Interrupted at byte offset \<open>k\<close>
  it leaves the first \<open>k\<close> bytes of the new serialization in the file, whatever the
  file held, and before the last byte that is never a ledger a reader can parse; the
  write that completes leaves the new ledger.
\<close>

theorem write_is_in_place:
  "(MarshalIndent rs = Inr data \<longrightarrow> write_fault fs s = Some (WriteFails e k)
      \<longrightarrow> writeUpdated rs s fs = (FailedToWriteStorage e, WriteFile_upto k s data fs)
        \<and> files (snd (writeUpdated rs s fs)) s = Some (take k data)
        \<and> (k < length data \<longrightarrow> ledger s (snd (writeUpdated rs s fs)) = None))
   \<and> (MarshalIndent rs = Inr data \<longrightarrow> write_fault fs s = None
      \<longrightarrow> writeUpdated rs s fs = (Stored, WriteFile_upto (length data) s data fs)
        \<and> files (snd (writeUpdated rs s fs)) s = Some data
        \<and> ledger s (snd (writeUpdated rs s fs)) = Some (map coerce rs))
   \<and> (p \<noteq> s \<longrightarrow> files (snd (writeUpdated rs s fs)) p = files fs p)"
proof (intro conjI impI)
  assume a: "MarshalIndent rs = Inr data" "write_fault fs s = Some (WriteFails e k)"
  show w: "writeUpdated rs s fs = (FailedToWriteStorage e, WriteFile_upto k s data fs)"
    by (rule writeUpdated_fails [OF a])
  show "files (snd (writeUpdated rs s fs)) s = Some (take k data)"
    unfolding w by (simp add: WriteFile_upto_def)
  show "ledger s (snd (writeUpdated rs s fs)) = None" if "k < length data"
    unfolding w snd_conv by (rule ledger_truncated [OF a(1) that])
next
  assume a: "MarshalIndent rs = Inr data" "write_fault fs s = None"
  show w: "writeUpdated rs s fs = (Stored, WriteFile_upto (length data) s data fs)"
    using a by (simp add: writeUpdated_def WriteFile_def)
  show "files (snd (writeUpdated rs s fs)) s = Some data"
    unfolding w by (simp add: WriteFile_upto_def)
  show "ledger s (snd (writeUpdated rs s fs)) = Some (map coerce rs)"
    unfolding w snd_conv by (rule ledger_complete [OF a(1)]) simp
next
  assume "p \<noteq> s"
  then show "files (snd (writeUpdated rs s fs)) p = files fs p"
    by (simp add: writeUpdated_def WriteFile_def WriteFile_upto_def MarshalIndent_def
          split: option.splits write_fault.splits)
qed

theorem write_is_in_place_witness:
  "MarshalIndent two_records = Inr (projr (MarshalIndent two_records))
   \<and> write_fault interrupted ''db.json'' = Some (WriteFails EIO 1)
   \<and> 1 < length (projr (MarshalIndent two_records))
   \<and> writeUpdated two_records ''db.json'' interrupted
       = (FailedToWriteStorage EIO,
          WriteFile_upto 1 ''db.json'' (projr (MarshalIndent two_records)) interrupted)
   \<and> files (snd (writeUpdated two_records ''db.json'' interrupted)) ''db.json'' = Some ''[''
   \<and> ledger ''db.json'' (snd (writeUpdated two_records ''db.json'' interrupted)) = None
   \<and> MarshalIndent one_record = Inr (projr (MarshalIndent one_record))
   \<and> write_fault (plain_fs Map.empty) ''db.json'' = None
   \<and> writeUpdated one_record ''db.json'' (plain_fs Map.empty)
       = (Stored, WriteFile_upto (length (projr (MarshalIndent one_record))) ''db.json''
                    (projr (MarshalIndent one_record)) (plain_fs Map.empty))
   \<and> files (snd (writeUpdated one_record ''db.json'' (plain_fs Map.empty))) ''db.json''
       = Some (projr (MarshalIndent one_record))
   \<and> ledger ''db.json'' (snd (writeUpdated one_record ''db.json'' (plain_fs Map.empty)))
       = Some [\<lparr>Path = ''a.txt'', Size = 5\<rparr>]
   \<and> ''b.txt'' \<noteq> ''db.json''
   \<and> files (snd (writeUpdated two_records ''db.json'' interrupted)) ''b.txt'' = Some ''hi''"
proof -
  note T = write_is_in_place
  have wf: "write_fault interrupted ''db.json'' = Some (WriteFails EIO 1)"
    by (simp add: interrupted_def plain_fs_def)
  note I = T [where rs = two_records and data = "projr (MarshalIndent two_records)"
      and fs = interrupted and s = "''db.json''" and e = EIO and k = 1,
      THEN conjunct1, rule_format, OF MarshalIndent_Inr wf]
  have t: "take 1 (projr (MarshalIndent two_records)) = ''[''"
    by (simp add: MarshalIndent_def two_records_def)
  have 1: "files (snd (writeUpdated two_records ''db.json'' interrupted)) ''db.json'' = Some ''[''"
    using I [THEN conjunct2, THEN conjunct1] unfolding t .
  have 2: "ledger ''db.json'' (snd (writeUpdated two_records ''db.json'' interrupted)) = None"
    using I [THEN conjunct2, THEN conjunct2] MarshalIndent_long by blast
  have nf: "write_fault (plain_fs Map.empty) ''db.json'' = None"
    by (simp add: plain_fs_def)
  note P = T [where rs = one_record and data = "projr (MarshalIndent one_record)"
      and fs = "plain_fs Map.empty" and s = "''db.json''",
      THEN conjunct2, THEN conjunct1, rule_format, OF MarshalIndent_Inr nf]
  have "ledger ''db.json'' (snd (writeUpdated one_record ''db.json'' (plain_fs Map.empty)))
       = Some (map coerce one_record)"
    by (rule P [THEN conjunct2, THEN conjunct2])
  then have 3: "ledger ''db.json'' (snd (writeUpdated one_record ''db.json'' (plain_fs Map.empty)))
       = Some [\<lparr>Path = ''a.txt'', Size = 5\<rparr>]"
    by (simp add: one_record_def coerce_ascii_examples)
  have ne: "''b.txt'' \<noteq> ''db.json''" by simp
  have "files (snd (writeUpdated two_records ''db.json'' interrupted)) ''b.txt''
        = files interrupted ''b.txt''"
    using T [where rs = two_records and fs = interrupted and s = "''db.json''" and p = "''b.txt''",
        THEN conjunct2, THEN conjunct2] ne by blast
  then have 4: "files (snd (writeUpdated two_records ''db.json'' interrupted)) ''b.txt'' = Some ''hi''"
    by (simp add: interrupted_def plain_fs_def)
  show ?thesis
    using MarshalIndent_Inr [of two_records] wf MarshalIndent_long [of two_records]
      I [THEN conjunct1] 1 2 MarshalIndent_Inr [of one_record] nf P [THEN conjunct1]
      P [THEN conjunct2, THEN conjunct1] 3 ne 4
    by blast
qed

section \<open>No deduplication\<close>

text \<open>
  Claim C7. Two appends of records with the same path and different sizes, to a ledger
  that reads as \<open>l\<close> and with no fault on the storage location, both store, and the
  ledger then is \<open>l\<close> followed by the two records, which are two distinct entries: the
  second does not replace the first.
\<close>

theorem no_dedup_by_path:
  assumes "stat_fault fs s = None" and "read_fault fs s = None" and "write_fault fs s = None"
    and "ledger s fs = Some l"
    and "Path r1 = Path r2" and "Size r1 \<noteq> Size r2"
  shows "fst (appendRecord r1 s fs) = Stored
         \<and> fst (appendRecord r2 s (snd (appendRecord r1 s fs))) = Stored
         \<and> ledger s (snd (appendRecord r2 s (snd (appendRecord r1 s fs))))
             = Some (l @ [coerce r1, coerce r2])
         \<and> coerce r1 \<noteq> coerce r2
         \<and> Path (coerce r1) = Path (coerce r2)"
proof -
  let ?fs1 = "snd (appendRecord r1 s fs)"
  have a1: "fst (appendRecord r1 s fs) = Stored" "ledger s ?fs1 = Some (l @ [coerce r1])"
    using append_ledger [OF assms(1-4), of r1, THEN conjunct1] apply simp
    by (rule append_ledger [OF assms(1-4), of r1, THEN conjunct2])
  have f1: "stat_fault ?fs1 s = None" "read_fault ?fs1 s = None" "write_fault ?fs1 s = None"
    using append_faults(1-3) [OF assms(1-4), of r1] assms(1-3) by simp_all
  have a2: "fst (appendRecord r2 s ?fs1) = Stored"
    "ledger s (snd (appendRecord r2 s ?fs1)) = Some ((l @ [coerce r1]) @ [coerce r2])"
    using append_ledger [OF f1 a1(2), of r2, THEN conjunct1] apply simp
    by (rule append_ledger [OF f1 a1(2), of r2, THEN conjunct2])
  have "Size (coerce r1) \<noteq> Size (coerce r2)" using assms(6) by (simp add: Size_coerce)
  then have d: "coerce r1 \<noteq> coerce r2" by auto
  show ?thesis using a1 a2 d assms(5) by (simp add: coerce_def)
qed

theorem no_dedup_by_path_witness:
  "stat_fault (plain_fs Map.empty) ''db.json'' = None
   \<and> read_fault (plain_fs Map.empty) ''db.json'' = None
   \<and> write_fault (plain_fs Map.empty) ''db.json'' = None
   \<and> ledger ''db.json'' (plain_fs Map.empty) = Some []
   \<and> ledger ''db.json''
        (snd (appendRecord \<lparr>Path = ''a.txt'', Size = 9\<rparr> ''db.json''
               (snd (appendRecord \<lparr>Path = ''a.txt'', Size = 5\<rparr> ''db.json'' (plain_fs Map.empty)))))
       = Some [\<lparr>Path = ''a.txt'', Size = 5\<rparr>, \<lparr>Path = ''a.txt'', Size = 9\<rparr>]"
proof -
  have h: "stat_fault (plain_fs Map.empty) ''db.json'' = None"
    "read_fault (plain_fs Map.empty) ''db.json'' = None"
    "write_fault (plain_fs Map.empty) ''db.json'' = None"
    "ledger ''db.json'' (plain_fs Map.empty) = Some []"
    by (simp_all add: plain_fs_def ledger_def)
  have p: "Path \<lparr>Path = ''a.txt'', Size = 5 :: 64 word\<rparr> = Path \<lparr>Path = ''a.txt'', Size = 9 :: 64 word\<rparr>"
    "Size \<lparr>Path = ''a.txt'', Size = 5 :: 64 word\<rparr> \<noteq> Size \<lparr>Path = ''a.txt'', Size = 9 :: 64 word\<rparr>"
    by simp_all
  from no_dedup_by_path [OF h p] h
  show ?thesis by (simp add: coerce_ascii_examples)
qed

section \<open>Concurrent appends\<close>

text \<open>
  Claim C1 says that \<open>N\<close> concurrent appends to an empty store leave exactly \<open>N\<close>
  records whatever the interleaving. The program takes no lock around its read of the
  file and its write: when two calls both read before either writes, both store, and
  the ledger holds one record, the one written last.
\<close>

theorem lost_update_counterexample:
  "fst (run ''db.json'' [0, 1, 0, 1]
          ([Pending \<lparr>Path = ''a.txt'', Size = 5\<rparr>, Pending \<lparr>Path = ''b.txt'', Size = 2\<rparr>],
           plain_fs Map.empty))
     = [Finished Stored, Finished Stored]
   \<and> ledger ''db.json''
        (snd (run ''db.json'' [0, 1, 0, 1]
                ([Pending \<lparr>Path = ''a.txt'', Size = 5\<rparr>, Pending \<lparr>Path = ''b.txt'', Size = 2\<rparr>],
                 plain_fs Map.empty)))
       = Some [\<lparr>Path = ''b.txt'', Size = 2\<rparr>]"
proof -
  have a: "readExisting ''db.json'' (plain_fs Map.empty) = Inr []"
    by (simp add: readExisting_absent plain_fs_def)
  have w: "write_fault (plain_fs Map.empty) ''db.json'' = None"
    "\<And>d. write_fault ((plain_fs Map.empty)\<lparr>files := d\<rparr>) ''db.json'' = None"
    by (simp_all add: plain_fs_def)
  show ?thesis
    by (simp add: step_call_pending [OF a] step_call_loaded w ledger_written coerce_ascii_examples)
qed

text \<open>
  Claim C1, amended. When the \<open>N\<close> appends run one after the other, in whatever
  order (each call's write before the next call's read), on an empty store and with no
  fault on the storage location, every call stores and the ledger holds exactly the
  \<open>N\<close> records, each once, in the order in which the calls ran. Nothing in the
  program keeps the calls of different workers from overlapping.
\<close>

theorem serial_appends_keep_all:
  assumes "stat_fault fs s = None" and "read_fault fs s = None" and "write_fault fs s = None"
    and "files fs s = None"
    and "distinct order" and "set order = {0..<length rs}"
  shows "fst (run s (serial order) (map Pending rs, fs)) = replicate (length rs) (Finished Stored)
         \<and> ledger s (snd (run s (serial order) (map Pending rs, fs)))
             = Some (map (\<lambda>i. coerce (rs ! i)) order)
         \<and> length (map (\<lambda>i. coerce (rs ! i)) order) = length rs"
proof -
  have l: "ledger s fs = Some []" using assms(4) by (simp add: ledger_def)
  have p: "\<forall>i \<in> set order. i < length (map Pending rs) \<and> map Pending rs ! i = Pending (rs ! i)"
    using assms(6) by simp
  note R = run_serial [OF assms(1-3) l assms(5) p]
  have n: "length order = length rs"
    using distinct_card [OF assms(5)] assms(6) by simp
  have "fst (run s (serial order) (map Pending rs, fs)) = replicate (length rs) (Finished Stored)"
  proof (rule nth_equalityI)
    show "length (fst (run s (serial order) (map Pending rs, fs)))
          = length (replicate (length rs) (Finished Stored))"
      using R by simp
  next
    fix i
    assume "i < length (fst (run s (serial order) (map Pending rs, fs)))"
    then have "i \<in> set order" using R assms(6) by simp
    then show "fst (run s (serial order) (map Pending rs, fs)) ! i
               = replicate (length rs) (Finished Stored) ! i"
      using R assms(6) by simp
  qed
  then show ?thesis using R n by simp
qed

theorem serial_appends_keep_all_witness:
  "stat_fault (plain_fs Map.empty) ''db.json'' = None
   \<and> read_fault (plain_fs Map.empty) ''db.json'' = None
   \<and> write_fault (plain_fs Map.empty) ''db.json'' = None
   \<and> files (plain_fs Map.empty) ''db.json'' = None
   \<and> distinct [1, 0 :: nat]
   \<and> set [1, 0] = {0..<length [\<lparr>Path = ''a.txt'', Size = 5 :: 64 word\<rparr>, \<lparr>Path = ''b.txt'', Size = 2\<rparr>]}
   \<and> serial [1, 0] = [1, 1, 0, 0]
   \<and> fst (run ''db.json'' [1, 1, 0, 0]
            ([Pending \<lparr>Path = ''a.txt'', Size = 5\<rparr>, Pending \<lparr>Path = ''b.txt'', Size = 2\<rparr>],
             plain_fs Map.empty))
       = [Finished Stored, Finished Stored]
   \<and> ledger ''db.json''
        (snd (run ''db.json'' [1, 1, 0, 0]
                ([Pending \<lparr>Path = ''a.txt'', Size = 5\<rparr>, Pending \<lparr>Path = ''b.txt'', Size = 2\<rparr>],
                 plain_fs Map.empty)))
       = Some [\<lparr>Path = ''b.txt'', Size = 2\<rparr>, \<lparr>Path = ''a.txt'', Size = 5\<rparr>]"
proof -
  let ?rs = "[\<lparr>Path = ''a.txt'', Size = 5 :: 64 word\<rparr>, \<lparr>Path = ''b.txt'', Size = 2\<rparr>]"
  have h: "stat_fault (plain_fs Map.empty) ''db.json'' = None"
    "read_fault (plain_fs Map.empty) ''db.json'' = None"
    "write_fault (plain_fs Map.empty) ''db.json'' = None"
    "files (plain_fs Map.empty) ''db.json'' = None"
    by (simp_all add: plain_fs_def)
  have o: "distinct [1, 0 :: nat]" "set [1, 0] = {0..<length ?rs}"
    by auto
  have s: "serial [1, 0] = [1, 1, 0, 0]" by (simp add: serial_def)
  from serial_appends_keep_all [OF h o] h o s
  show ?thesis
    by (simp add: coerce_ascii_examples del: run.simps)
qed

section \<open>Shutdown\<close>



section \<open>The dispatcher\<close>

text \<open>
  Claim C8. The dispatcher passes on the name of an event exactly when the event has
  the Create bit or the Write bit (line 77): whenever an event leaves the notifications,
  the dispatcher stands at its send with the name of the event if the event has one of
  the two bits, and holds nothing otherwise. The channel never holds more than
  \<^verbatim>\<open>ConcurrencyLevel\<close> names, and the send goes through exactly when it holds fewer.
  While the channel is full, whatever step the program takes, the dispatcher still holds
  the name and has consumed no further notification: the event is not dropped. A name
  the dispatcher holds stays held until it is appended to the channel; a name the
  dispatcher comes to hold is the name of an event with one of the two bits, taken from
  the head of the notifications; the channel grows only by the name the dispatcher
  holds. The names still to be handed to a worker change only when a worker takes the
  first of them from the channel, so at every moment the names of the wanted events, in
  their order, are those the workers have taken followed by those still pending.
\<close>

theorem dispatcher_filters_and_blocks:
  "(wanted event \<longleftrightarrow> bit (Op event) 0 \<or> bit (Op event) 1)
   \<and> (exitCode p = None \<longrightarrow> dispatching p \<longrightarrow> sending p = None \<longrightarrow> \<not> watcherClosed p
        \<longrightarrow> source p = OnEvents event # rest
        \<longrightarrow> step p (p\<lparr>source := rest, sending := (if wanted event then Some (Name event) else None)\<rparr>))
   \<and> (step p p' \<longrightarrow> source p = OnEvents event # rest \<longrightarrow> source p' \<noteq> source p
        \<longrightarrow> source p' = rest \<and> sending p' = (if wanted event then Some (Name event) else None)
            \<and> fileChan p' = fileChan p)
   \<and> (rtranclp step (start level location notifications fs) q
        \<longrightarrow> length (fileChan q) \<le> level \<and> ConcurrencyLevel q = level)
   \<and> (exitCode p = None \<longrightarrow> \<not> chanClosed p \<longrightarrow> sending p = Some name
        \<longrightarrow> (length (fileChan p) < ConcurrencyLevel p
             \<longleftrightarrow> step p (p\<lparr>fileChan := fileChan p @ [name], sending := None\<rparr>)))
   \<and> (step p p' \<longrightarrow> sending p = Some name
        \<longrightarrow> (sending p' = Some name \<and> source p' = source p)
            \<or> (sending p' = None \<and> fileChan p' = fileChan p @ [name]
                \<and> length (fileChan p) < ConcurrencyLevel p))
   \<and> (step p p' \<longrightarrow> sending p = Some name \<longrightarrow> ConcurrencyLevel p \<le> length (fileChan p)
        \<longrightarrow> sending p' = Some name \<and> source p' = source p)
   \<and> (step p p' \<longrightarrow> sending p = None \<longrightarrow> sending p' = Some name
        \<longrightarrow> (\<exists>e. source p = OnEvents e # source p' \<and> wanted e \<and> Name e = name))
   \<and> (step p p'
        \<longrightarrow> fileChan p' = fileChan p
            \<or> (\<exists>held. sending p = Some held \<and> fileChan p' = fileChan p @ [held])
            \<or> (\<exists>path. fileChan p = path # fileChan p'))
   \<and> (step p p'
        \<longrightarrow> pending p' = pending p
            \<or> (\<exists>path. fileChan p = path # fileChan p' \<and> pending p = path # pending p'
                  \<and> 0 < wg p))
   \<and> (rtranclp step (start level location notifications fs) q
        \<longrightarrow> (\<exists>taken. wanted_names notifications = taken @ pending q))"
proof (intro conjI impI)
  show "wanted event \<longleftrightarrow> bit (Op event) 0 \<or> bit (Op event) 1"
    by (rule wanted_bits)
next
  assume "exitCode p = None" "dispatching p" "sending p = None" "\<not> watcherClosed p"
    "source p = OnEvents event # rest"
  then show "step p (p\<lparr>source := rest, sending := (if wanted event then Some (Name event) else None)\<rparr>)"
    by (rule receive_event)
next
  assume "step p p'" "source p = OnEvents event # rest" "source p' \<noteq> source p"
  then show "source p' = rest" "sending p' = (if wanted event then Some (Name event) else None)"
    "fileChan p' = fileChan p"
    using step_source by blast+
next
  assume "rtranclp step (start level location notifications fs) q"
  then show "length (fileChan q) \<le> level" "ConcurrencyLevel q = level"
    using reachable_capacity by blast+
next
  assume a: "exitCode p = None" "\<not> chanClosed p" "sending p = Some name"
  show "length (fileChan p) < ConcurrencyLevel p
        \<longleftrightarrow> step p (p\<lparr>fileChan := fileChan p @ [name], sending := None\<rparr>)"
  proof
    assume "length (fileChan p) < ConcurrencyLevel p"
    with a show "step p (p\<lparr>fileChan := fileChan p @ [name], sending := None\<rparr>)"
      by (simp add: send)
  next
    assume "step p (p\<lparr>fileChan := fileChan p @ [name], sending := None\<rparr>)"
    then show "length (fileChan p) < ConcurrencyLevel p"
      using a by (cases rule: step.cases) (auto dest: arg_cong [where f = sending] arg_cong [where f = fileChan])
  qed
next
  assume "step p p'" "sending p = Some name"
  then show "(sending p' = Some name \<and> source p' = source p)
            \<or> (sending p' = None \<and> fileChan p' = fileChan p @ [name]
                \<and> length (fileChan p) < ConcurrencyLevel p)"
    by (induction rule: step.induct) simp_all
next
  assume "step p p'" "sending p = Some name" "ConcurrencyLevel p \<le> length (fileChan p)"
  then show "sending p' = Some name" "source p' = source p"
    by (induction rule: step.induct) simp_all
next
  assume "step p p'" "sending p = None" "sending p' = Some name"
  then show "\<exists>e. source p = OnEvents e # source p' \<and> wanted e \<and> Name e = name"
    by (induction rule: step.induct) (simp_all split: if_splits)
next
  assume "step p p'"
  then show "fileChan p' = fileChan p
            \<or> (\<exists>held. sending p = Some held \<and> fileChan p' = fileChan p @ [held])
            \<or> (\<exists>path. fileChan p = path # fileChan p')"
    by (induction rule: step.induct) simp_all
next
  assume "step p p'"
  then show "pending p' = pending p
            \<or> (\<exists>path. fileChan p = path # fileChan p' \<and> pending p = path # pending p'
                  \<and> 0 < wg p)"
    by (rule step_pending)
next
  assume "rtranclp step (start level location notifications fs) q"
  then show "\<exists>taken. wanted_names notifications = taken @ pending q"
    by (rule reachable_pending)
qed

theorem dispatcher_filters_and_blocks_witness:
  "wanted created_a \<and> bit (Op created_a) 0
   \<and> \<not> wanted removed_c \<and> \<not> bit (Op removed_c) 0 \<and> \<not> bit (Op removed_c) 1
   \<and> step pipe0 (pipe0\<lparr>source := [OnEvents written_b],
                     sending := (if wanted created_a then Some (Name created_a) else None)\<rparr>)
   \<and> step pipe0 pipe1 \<and> source pipe0 = OnEvents created_a # [OnEvents written_b]
   \<and> source pipe1 \<noteq> source pipe0 \<and> source pipe1 = [OnEvents written_b]
   \<and> sending pipe1 = (if wanted created_a then Some (Name created_a) else None)
   \<and> fileChan pipe1 = fileChan pipe0
   \<and> rtranclp step pipe0 pipe2
   \<and> length (fileChan pipe2) \<le> 1 \<and> ConcurrencyLevel pipe2 = 1
   \<and> length (fileChan pipe1) < ConcurrencyLevel pipe1
   \<and> step pipe1 (pipe1\<lparr>fileChan := fileChan pipe1 @ [''a.txt''], sending := None\<rparr>)
   \<and> step pipe1 pipe2
   \<and> sending pipe1 = Some ''a.txt'' \<and> sending pipe2 = None
   \<and> fileChan pipe2 = fileChan pipe1 @ [''a.txt'']
   \<and> ConcurrencyLevel pipe3 \<le> length (fileChan pipe3)
   \<and> step pipe3 pipe4
   \<and> sending pipe3 = Some ''b.txt'' \<and> sending pipe4 = Some ''b.txt''
   \<and> source pipe4 = source pipe3
   \<and> sending pipe0 = None
   \<and> (\<exists>e. source pipe0 = OnEvents e # source pipe1 \<and> wanted e \<and> Name e = ''a.txt'')
   \<and> fileChan pipe3 = ''a.txt'' # fileChan pipe4
   \<and> pending pipe1 = pending pipe0
   \<and> pending pipe3 = ''a.txt'' # pending pipe4 \<and> 0 < wg pipe3
   \<and> rtranclp step pipe0 pipe4
   \<and> (\<exists>taken. wanted_names [OnEvents created_a, OnEvents written_b] = taken @ pending pipe4)"
proof -
  note T = dispatcher_filters_and_blocks
  have c: "bit (Op created_a) 0"
    by (simp add: created_a_def)
  have w: "wanted created_a"
    using T [where event = created_a,
        THEN conjunct1] c by blast
  have nc: "\<not> bit (Op removed_c) 0" "\<not> bit (Op removed_c) 1"
    by (simp_all add: removed_c_def)
  have nw: "\<not> wanted removed_c"
    using T [where event = removed_c,
        THEN conjunct1] nc by blast
  have s0: "step pipe0 (pipe0\<lparr>source := [OnEvents written_b],
                     sending := (if wanted created_a then Some (Name created_a) else None)\<rparr>)"
    using T [where event = created_a and p = pipe0 and rest = "[OnEvents written_b]",
        THEN conjunct2, THEN conjunct1]
      pipe_facts(1-5) by blast
  have ns: "source pipe1 \<noteq> source pipe0" by (simp add: pipe_facts)
  have rc: "source pipe1 = [OnEvents written_b]
            \<and> sending pipe1 = (if wanted created_a then Some (Name created_a) else None)
            \<and> fileChan pipe1 = fileChan pipe0"
    using T [where p = pipe0 and p' = pipe1 and event = created_a and rest = "[OnEvents written_b]",
        THEN conjunct2, THEN conjunct2, THEN conjunct1]
      pipe_steps(1) pipe_facts(5) ns by blast
  have r2: "rtranclp step pipe0 pipe2"
    using pipe_steps(1,2) by (meson rtranclp.rtrancl_into_rtrancl rtranclp.rtrancl_refl)
  have r4: "rtranclp step pipe0 pipe4"
    using r2 pipe_steps(3,4) by (meson rtranclp.rtrancl_into_rtrancl)
  have st: "pipe0 = start 1 ''db.json'' [OnEvents created_a, OnEvents written_b] (plain_fs Map.empty)"
    by (simp add: pipe0_def)
  have cap: "length (fileChan pipe2) \<le> 1 \<and> ConcurrencyLevel pipe2 = 1"
    using T [where level = 1 and location = "''db.json''"
        and notifications = "[OnEvents created_a, OnEvents written_b]"
        and fs = "plain_fs Map.empty" and q = pipe2,
        THEN conjunct2, THEN conjunct2, THEN conjunct2, THEN conjunct1]
      r2 [unfolded st] by blast
  have room: "length (fileChan pipe1) < ConcurrencyLevel pipe1"
    by (simp add: pipe_facts)
  have s1: "step pipe1 (pipe1\<lparr>fileChan := fileChan pipe1 @ [''a.txt''], sending := None\<rparr>)"
    using T [where p = pipe1 and name = "''a.txt''",
        THEN conjunct2, THEN conjunct2, THEN conjunct2, THEN conjunct2, THEN conjunct1]
      pipe_facts(7-9) room by blast
  have "(sending pipe2 = Some ''a.txt'' \<and> source pipe2 = source pipe1)
        \<or> (sending pipe2 = None \<and> fileChan pipe2 = fileChan pipe1 @ [''a.txt'']
            \<and> length (fileChan pipe1) < ConcurrencyLevel pipe1)"
    using T [where p = pipe1 and name = "''a.txt''" and p' = pipe2,
        THEN conjunct2, THEN conjunct2, THEN conjunct2, THEN conjunct2, THEN conjunct2, THEN conjunct1]
      pipe_steps(2) pipe_facts(9) by blast
  then have handed: "sending pipe2 = None \<and> fileChan pipe2 = fileChan pipe1 @ [''a.txt'']"
    by (simp add: pipe_facts)
  have full: "ConcurrencyLevel pipe3 \<le> length (fileChan pipe3)"
    by (simp add: pipe_facts)
  have s3: "sending pipe3 = Some ''b.txt''" by (simp add: pipe_facts)
  have held: "sending pipe4 = Some ''b.txt'' \<and> source pipe4 = source pipe3"
    using T [where p = pipe3 and name = "''b.txt''" and p' = pipe4,
        THEN conjunct2, THEN conjunct2, THEN conjunct2, THEN conjunct2, THEN conjunct2, THEN conjunct2, THEN conjunct1]
      pipe_steps(4) s3 full by blast
  have origin: "\<exists>e. source pipe0 = OnEvents e # source pipe1 \<and> wanted e \<and> Name e = ''a.txt''"
    using T [where p = pipe0 and name = "''a.txt''" and p' = pipe1,
        THEN conjunct2, THEN conjunct2, THEN conjunct2, THEN conjunct2, THEN conjunct2, THEN conjunct2, THEN conjunct2, THEN conjunct1]
      pipe_steps(1) pipe_facts(3,9) by blast
  have "fileChan pipe4 = fileChan pipe3
        \<or> (\<exists>held. sending pipe3 = Some held \<and> fileChan pipe4 = fileChan pipe3 @ [held])
        \<or> (\<exists>path. fileChan pipe3 = path # fileChan pipe4)"
    using T [where p = pipe3 and p' = pipe4,
        THEN conjunct2, THEN conjunct2, THEN conjunct2, THEN conjunct2, THEN conjunct2, THEN conjunct2, THEN conjunct2, THEN conjunct2, THEN conjunct1]
      pipe_steps(4) by blast
  then have taken: "fileChan pipe3 = ''a.txt'' # fileChan pipe4"
    by (simp add: pipe_facts)
  have "pending pipe1 = pending pipe0
        \<or> (\<exists>path. fileChan pipe0 = path # fileChan pipe1 \<and> pending pipe0 = path # pending pipe1
              \<and> 0 < wg pipe0)"
    using T [where p = pipe0 and p' = pipe1,
        THEN conjunct2, THEN conjunct2, THEN conjunct2, THEN conjunct2, THEN conjunct2, THEN conjunct2, THEN conjunct2, THEN conjunct2, THEN conjunct2, THEN conjunct1]
      pipe_steps(1) by blast
  then have kept: "pending pipe1 = pending pipe0"
    by (simp add: pipe_facts)
  have "pending pipe4 = pending pipe3
        \<or> (\<exists>path. fileChan pipe3 = path # fileChan pipe4 \<and> pending pipe3 = path # pending pipe4
              \<and> 0 < wg pipe3)"
    using T [where p = pipe3 and p' = pipe4,
        THEN conjunct2, THEN conjunct2, THEN conjunct2, THEN conjunct2, THEN conjunct2, THEN conjunct2, THEN conjunct2, THEN conjunct2, THEN conjunct2, THEN conjunct1]
      pipe_steps(4) by blast
  then have worked: "pending pipe3 = ''a.txt'' # pending pipe4 \<and> 0 < wg pipe3"
    by (simp add: pipe_pending pipe_facts)
  have all: "\<exists>taken. wanted_names [OnEvents created_a, OnEvents written_b] = taken @ pending pipe4"
    using T [where level = 1 and location = "''db.json''"
        and notifications = "[OnEvents created_a, OnEvents written_b]"
        and fs = "plain_fs Map.empty" and q = pipe4,
        THEN conjunct2, THEN conjunct2, THEN conjunct2, THEN conjunct2, THEN conjunct2, THEN conjunct2, THEN conjunct2, THEN conjunct2, THEN conjunct2, THEN conjunct2]
      r4 [unfolded st] by blast
  show ?thesis
    using c w nc nw s0 pipe_steps(1) pipe_facts(5) ns rc r2 cap room s1 pipe_steps(2)
      pipe_facts(9) handed full pipe_steps(4) s3 held pipe_facts(3) origin taken kept worked r4 all
    by blast
qed


end
